theory Spec2Isabelle
  imports Main "HOL-Library.Product_Order" "HOL-Library.Numeral_Type"
begin

section \<open>Saturation of Mordell-Weil groups: the module saturation.py\<close>

text \<open>
  The module has three functions: \<open>p_projections\<close>, \<open>p_saturation\<close> and
  \<open>full_p_saturation\<close>. They call into the rest of the library for curve arithmetic,
  finite fields, linear algebra over \<open>F_p\<close>, discrete logarithms and the Weil pairing.
  Those services are not part of the module; they enter the model as fields of records
  of services, and every definition below is parametric in them.
\<close>

subsection \<open>Exceptions\<close>

text \<open>
  The exceptions that the module's own statements can raise: the \<open>assert\<close> of
  \<open>p_projections\<close>; \<open>ValueError\<close> from \<open>min\<close> of an empty list, from tuple
  unpacking, from \<open>tuple.index\<close> and from the discrete logarithm; \<open>IndexError\<close> from
  subscripting; \<open>StopIteration\<close> from \<open>next\<close> on an exhausted generator.
\<close>

datatype error = AssertionError | ValueError | IndexError | StopIteration

subsection \<open>The finite-field projector \<open>p_projections\<close>\<close>

text \<open>
  The argument \<open>G\<close> of \<open>p_projections\<close> is the abelian group of an elliptic curve over
  a finite field. The record holds what the function reads from it and the operations on
  its elements that the function calls: \<open>G.order()\<close>, the elements of \<open>G.gens()\<close>,
  scalar multiples \<open>m*pt\<close>, the truth value of a point (true when it is not zero),
  \<open>g.order()\<close>, \<open>weil_pairing\<close>, \<open>multiplicative_order\<close>, and \<open>discrete_log\<close> for the
  operations \<open>'+'\<close> and \<open>'*'\<close>, which raises \<open>ValueError\<close> (here \<open>None\<close>) when no
  logarithm exists.
\<close>

record ('g, 'f) finite_group =
  group_order :: nat
  group_gens :: "'g list"
  scalar :: "nat \<Rightarrow> 'g \<Rightarrow> 'g"
  is_nonzero :: "'g \<Rightarrow> bool"
  point_order :: "'g \<Rightarrow> nat"
  weil_pairing :: "'g \<Rightarrow> 'g \<Rightarrow> nat \<Rightarrow> 'f"
  multiplicative_order :: "'f \<Rightarrow> nat"
  dlog_add :: "'g \<Rightarrow> 'g \<Rightarrow> nat \<Rightarrow> nat option"
  dlog_mul :: "'f \<Rightarrow> 'f \<Rightarrow> nat \<Rightarrow> nat option"

text \<open>
  Modelled from the spec: \<open>Integer.prime_to_m_part\<close> is a method of the library's
  integers and is not in the module. It returns the largest divisor of \<open>n\<close> that is
  coprime to \<open>m\<close> (the order divided by its \<open>p\<close>-primary part, when \<open>m = p\<close> is prime),
  by dividing the common factor out until none is left.
\<close>

function prime_to_m_part :: "nat \<Rightarrow> nat \<Rightarrow> nat" where
  "prime_to_m_part n m =
     (if n = 0 then 0
      else if gcd n m = 1 then n
      else prime_to_m_part (n div gcd n m) m)"
  by pat_completeness auto
termination
proof (relation "measure fst", simp)
  fix n m :: nat
  assume n: "n \<noteq> 0" and g: "gcd n m \<noteq> 1"
  have "gcd n m \<noteq> 0" using n by simp
  with g have "1 < gcd n m" by linarith
  with n have "n div gcd n m < n" by simp
  then show "((n div gcd n m, m), (n, m)) \<in> measure fst" by simp
qed

declare prime_to_m_part.simps [simp del]

text \<open>\<open>min(orders)\<close> and \<open>max(orders)\<close>: both raise \<open>ValueError\<close> on an empty list.\<close>

fun py_min :: "nat list \<Rightarrow> error + nat" where
  "py_min [] = Inl ValueError"
| "py_min (x # xs) = Inr (fold min xs x)"

fun py_max :: "nat list \<Rightarrow> error + nat" where
  "py_max [] = Inl ValueError"
| "py_max (x # xs) = Inr (fold max xs x)"

text \<open>
  A list comprehension of discrete logarithms: the first one that does not exist raises
  \<open>ValueError\<close>. \<open>vector(Fp, v)\<close> reduces each entry modulo \<open>p\<close>.
\<close>

definition dlogs :: "('a \<Rightarrow> nat option) \<Rightarrow> 'a list \<Rightarrow> error + nat list" where
  "dlogs f xs = (case those (map f xs) of None \<Rightarrow> Inl ValueError | Some v \<Rightarrow> Inr v)"

definition vector_Fp :: "nat \<Rightarrow> nat list \<Rightarrow> nat list" where
  "vector_Fp p v = map (\<lambda>x. x mod p) v"

text \<open>
  \<open>p_projections(G, Plist, p, debug)\<close>. The flag \<open>debug\<close> only prints; it is kept as
  an argument because the caller's retry sets it.
\<close>

definition p_projections ::
  "('g, 'f) finite_group \<Rightarrow> 'g list \<Rightarrow> nat \<Rightarrow> bool \<Rightarrow> error + nat list list" where
  "p_projections G Plist p debug =
     (let n = group_order G;
          m = prime_to_m_part n p
      in if m = n then Inr []
         else
           let pts = map (scalar G m) Plist;
               gens = filter (is_nonzero G) (map (scalar G m) (group_gens G))
           in if length gens = 1 then
                (let g = hd gens;
                     pp = point_order G g
                 in case dlogs (\<lambda>pt. dlog_add G pt g pp) pts of
                      Inl e \<Rightarrow> Inl e
                    | Inr v \<Rightarrow> Inr [vector_Fp p v])
              else
                (let orders = map (point_order G) gens
                 in case py_min orders of
                      Inl e \<Rightarrow> Inl e
                    | Inr p1 \<Rightarrow>
                   (case py_max orders of
                      Inl e \<Rightarrow> Inl e
                    | Inr p2 \<Rightarrow>
                   (case gens of
                      [g1, g2] \<Rightarrow>
                        (let zeta = weil_pairing G g1 g2 p2
                         in if multiplicative_order G zeta \<noteq> p1 then Inl AssertionError
                            else
                              case dlogs (\<lambda>pt. dlog_mul G (weil_pairing G pt g1 p2) zeta p1) pts of
                                Inl e \<Rightarrow> Inl e
                              | Inr v1 \<Rightarrow>
                             (case dlogs (\<lambda>pt. dlog_mul G (weil_pairing G pt g2 p2) zeta p1) pts of
                                Inl e \<Rightarrow> Inl e
                              | Inr v2 \<Rightarrow> Inr [vector_Fp p v1, vector_Fp p v2]))
                    | _ \<Rightarrow> Inl ValueError))))"

subsection \<open>Library services used by \<open>p_saturation\<close> and \<open>full_p_saturation\<close>\<close>

text \<open>
  Points of the one curve \<open>E\<close> over the number field \<open>K\<close> are the elements of a type
  of class \<open>ab_group_add\<close>: \<open>E(0)\<close> is \<open>0\<close> and point addition is \<open>+\<close>. Everything
  else that the two functions ask of the library is a field of the record below:
  \<^item> \<open>division_points P p\<close>: \<open>P.division_points(p)\<close>;
  \<^item> \<open>torsion_gens\<close>, \<open>torsion_order\<close>: the elements \<open>T.element()\<close> of
    \<open>E.torsion_subgroup().gens()\<close> and \<open>T.order()\<close>;
  \<^item> \<open>Ediscnorm\<close>, \<open>Kdisc\<close>, \<open>denominator_norm P\<close>: \<open>E.discriminant().norm()\<close>,
    \<open>K.defining_polynomial().discriminant()\<close> and \<open>P[0].denominator_ideal().norm()\<close>;
  \<^item> \<open>roots_mod q\<close>: \<open>Kpol.roots(GF(q), multiplicities=False)\<close>;
  \<^item> \<open>reduced_cardinality q a\<close>, \<open>reduced_group q a\<close>, \<open>reduce_point q a P\<close>: for the
    curve \<open>Ek\<close> reduced at the root \<open>a\<close> modulo \<open>q\<close>, \<open>Ek.cardinality()\<close>,
    \<open>Ek.abelian_group()\<close> and the image of the point \<open>P\<close>;
  \<^item> \<open>rank_Fp p A\<close>, \<open>right_kernel_basis p n A\<close>: \<open>A.rank()\<close> and
    \<open>A.right_kernel().basis()\<close> of the matrix over \<open>GF(p)\<close> with \<open>n\<close> columns whose
    rows are \<open>A\<close>.
\<close>

record ('pt, 'r, 'g, 'f) services =
  division_points :: "'pt \<Rightarrow> nat \<Rightarrow> 'pt list"
  torsion_gens :: "'pt list"
  torsion_order :: "'pt \<Rightarrow> nat"
  Ediscnorm :: int
  Kdisc :: int
  denominator_norm :: "'pt \<Rightarrow> int"
  roots_mod :: "nat \<Rightarrow> 'r list"
  reduced_cardinality :: "nat \<Rightarrow> 'r \<Rightarrow> nat"
  reduced_group :: "nat \<Rightarrow> 'r \<Rightarrow> ('g, 'f) finite_group"
  reduce_point :: "nat \<Rightarrow> 'r \<Rightarrow> 'pt \<Rightarrow> 'g"
  rank_Fp :: "nat \<Rightarrow> nat list list \<Rightarrow> nat"
  right_kernel_basis :: "nat \<Rightarrow> nat \<Rightarrow> nat list list \<Rightarrow> nat list list"

subsection \<open>The store: lists and dicts are objects\<close>

text \<open>
  Python lists and dicts are mutable objects that variables refer to. The store maps an
  address to the contents of the list, or of the dict, that lives there; \<open>fresh\<close> is the
  next unused address. A dict of linear combinations has coefficient tuples as keys and
  points as values.
\<close>

record 'pt heap =
  list_at :: "nat \<Rightarrow> 'pt list"
  dict_at :: "nat \<Rightarrow> (nat list \<rightharpoonup> 'pt)"
  fresh :: nat

definition new_list :: "'pt list \<Rightarrow> 'pt heap \<Rightarrow> nat \<times> 'pt heap" where
  "new_list xs h = (fresh h, h\<lparr>list_at := (list_at h)(fresh h := xs), fresh := Suc (fresh h)\<rparr>)"

definition new_dict :: "'pt heap \<Rightarrow> nat \<times> 'pt heap" where
  "new_dict h = (fresh h, h\<lparr>dict_at := (dict_at h)(fresh h := Map.empty), fresh := Suc (fresh h)\<rparr>)"

definition dict_store :: "nat \<Rightarrow> nat list \<Rightarrow> 'pt \<Rightarrow> 'pt heap \<Rightarrow> 'pt heap" where
  "dict_store d w P h = h\<lparr>dict_at := (dict_at h)(d := (dict_at h d)(w \<mapsto> P))\<rparr>"

definition list_store :: "nat \<Rightarrow> nat \<Rightarrow> 'pt \<Rightarrow> 'pt heap \<Rightarrow> 'pt heap" where
  "list_store l i P h = h\<lparr>list_at := (list_at h)(l := (list_at h l)[i := P])\<rparr>"

text \<open>
  The default value \<open>dict()\<close> of the parameter \<open>lin_combs\<close> is evaluated once, when the
  \<open>def\<close> statement runs: each of the two functions owns one dict object, and every call
  that omits the argument receives that object. When the module has been loaded these two
  dicts exist and are empty.
\<close>

definition p_saturation_default :: nat where
  "p_saturation_default = 0"

definition full_p_saturation_default :: nat where
  "full_p_saturation_default = 1"

definition module_heap :: "'pt heap" where
  "module_heap = \<lparr>list_at = (\<lambda>_. []), dict_at = (\<lambda>_. Map.empty), fresh = 2\<rparr>"

text \<open>
  The result of \<open>p_saturation\<close>: \<open>(True, lin_combs)\<close>, with the dict it was given, or
  \<open>(False, i, newP)\<close>.
\<close>

datatype 'pt verdict = Saturated nat | NotSaturated nat 'pt

subsection \<open>The exhaustive search (\<open>sieve = False\<close>)\<close>

text \<open>
  Modelled from the spec: \<open>multiples(P, n)\<close> of \<open>sage.groups.generic\<close> is not in the
  module. It yields \<open>0, P, 2P, ..., (n-1)P\<close> by repeated addition of \<open>P\<close>.
\<close>

primrec nmult :: "nat \<Rightarrow> 'pt::ab_group_add \<Rightarrow> 'pt" where
  "nmult 0 P = 0"
| "nmult (Suc k) P = nmult k P + P"

definition multiples :: "'pt::ab_group_add \<Rightarrow> nat \<Rightarrow> 'pt list" where
  "multiples P n = map (\<lambda>k. nmult k P) [0..<n]"

text \<open>The prime numbers, by trial division.\<close>

definition is_prime :: "nat \<Rightarrow> bool" where
  "is_prime q = (2 \<le> q \<and> list_all (\<lambda>d. \<not> d dvd q) [2..<q])"

text \<open>
  Modelled from the spec: the constructor \<open>GF(p)\<close> is not in the module. For a prime
  \<open>p\<close> it gives the field of \<open>p\<close> elements, which the model represents by its order;
  the elements of the field are then the integers \<open>0, ..., p-1\<close>. The constructor raises
  \<open>ValueError\<close> for an order below \<open>2\<close> and for an order that is not a prime power,
  and it gives no field with integer elements for a proper prime power either; the model
  raises \<open>ValueError\<close> for every order that is not a prime.
\<close>

definition GF :: "nat \<Rightarrow> error + nat" where
  "GF p = (if is_prime p then Inr p else Inl ValueError)"

text \<open>
  Modelled from the spec: the iterator of \<open>ProjectiveSpace(F, n-1)\<close> over the field
  \<open>F\<close> of \<open>p\<close> elements is not in the module. It yields each point of projective
  space once, as the coefficient tuple of length \<open>n\<close> with entries in \<open>0..p-1\<close> whose
  last nonzero entry is \<open>1\<close>: every tuple \<open>v + (1,) + (0,)*k\<close>, where \<open>k\<close> is the
  number of trailing zeros. The order is the one of the library's iterator: the tuples
  without trailing zeros come first, then those with one trailing zero, and so on; among
  the tuples with the same \<open>k\<close> the free coordinates \<open>v\<close> run through the Cartesian
  product in lexicographic order, the last free coordinate fastest. For three coordinates
  over the field of two elements this is
  \<open>(0,0,1), (0,1,1), (1,0,1), (1,1,1), (0,1,0), (1,1,0), (1,0,0)\<close>.
\<close>

definition ProjectiveSpace :: "nat \<Rightarrow> nat \<Rightarrow> nat list list" where
  "ProjectiveSpace p n =
     concat (map (\<lambda>k. map (\<lambda>v. v @ [1] @ replicate k 0)
                          (List.product_lists (replicate (n - 1 - k) [0..<p])))
                 [0..<n])"

text \<open>\<open>mults = [list(multiples(P, p)) for P in Plist[:-1]] + [list(multiples(Plist[-1], 2))]\<close>\<close>

definition mults_tables :: "'pt::ab_group_add list \<Rightarrow> nat \<Rightarrow> 'pt list list" where
  "mults_tables Plist p = map (\<lambda>P. multiples P p) (butlast Plist) @ [multiples (last Plist) 2]"

text \<open>
  \<open>sum([m[c] for m,c in zip(mults,w)], E0)\<close>: a subscript out of range raises
  \<open>IndexError\<close>; the sum starts from \<open>E0\<close> and adds from the left.
\<close>

definition table_sum :: "'pt::ab_group_add list list \<Rightarrow> nat list \<Rightarrow> error + 'pt" where
  "table_sum mults w =
     (if list_all (\<lambda>(m, c). c < length m) (zip mults w)
      then Inr (foldl (+) 0 (map (\<lambda>(m, c). m ! c) (zip mults w)))
      else Inl IndexError)"

text \<open>\<open>w.index(1)\<close>: the first position of \<open>1\<close>, or \<open>ValueError\<close>.\<close>

fun tuple_index :: "nat list \<Rightarrow> nat \<Rightarrow> error + nat" where
  "tuple_index [] x = Inl ValueError"
| "tuple_index (y # ys) x =
     (if y = x then Inr 0
      else case tuple_index ys x of Inl e \<Rightarrow> Inl e | Inr i \<Rightarrow> Inr (Suc i))"

text \<open>
  The \<open>try\<close> block of the loop body: \<open>P = lin_combs[w]\<close>, and on \<open>KeyError\<close> the
  combination is computed and stored in the dict.
\<close>

definition lookup_or_compute ::
  "'pt::ab_group_add list list \<Rightarrow> nat \<Rightarrow> nat list \<Rightarrow> 'pt heap \<Rightarrow> (error + 'pt) \<times> 'pt heap" where
  "lookup_or_compute mults lin_combs w h =
     (case dict_at h lin_combs w of
        Some P \<Rightarrow> (Inr P, h)
      | None \<Rightarrow>
         (case table_sum mults w of
            Inl e \<Rightarrow> (Inl e, h)
          | Inr P \<Rightarrow> (Inr P, dict_store lin_combs w P h)))"

text \<open>
  The loop \<open>for v in ProjectiveSpace(GF(p),n-1)\<close> over the tuples that are left, and the
  \<open>return (True, lin_combs)\<close> after it. With \<open>w = tuple(int(x) for x in v)\<close> the
  tuples are tuples of integers.
\<close>

fun exhaustive_loop ::
  "('pt::ab_group_add, 'r, 'g, 'f) services \<Rightarrow> 'pt list list \<Rightarrow> nat \<Rightarrow> nat \<Rightarrow> nat list list
     \<Rightarrow> 'pt heap \<Rightarrow> (error + 'pt verdict) \<times> 'pt heap" where
  "exhaustive_loop S mults p lin_combs [] h = (Inr (Saturated lin_combs), h)"
| "exhaustive_loop S mults p lin_combs (w # ws) h =
     (case lookup_or_compute mults lin_combs w h of
        (Inl e, h') \<Rightarrow> (Inl e, h')
      | (Inr P, h') \<Rightarrow>
         (let divisors = division_points S P p
          in if divisors \<noteq> [] then
               (case tuple_index w 1 of
                  Inl e \<Rightarrow> (Inl e, h')
                | Inr i \<Rightarrow> (Inr (NotSaturated i (hd divisors)), h'))
             else exhaustive_loop S mults p lin_combs ws h'))"

text \<open>
  Lines 286 to 304: the tables of multiples are made first, then \<open>GF(p)\<close> is built,
  which raises before the loop starts when there is no such field.
\<close>

definition exhaustive_search ::
  "('pt::ab_group_add, 'r, 'g, 'f) services \<Rightarrow> 'pt list \<Rightarrow> nat \<Rightarrow> nat \<Rightarrow> 'pt heap
     \<Rightarrow> (error + 'pt verdict) \<times> 'pt heap" where
  "exhaustive_search S Plist p lin_combs h =
     (let mults = mults_tables Plist p
      in case GF p of
           Inl e \<Rightarrow> (Inl e, h)
         | Inr F \<Rightarrow>
             exhaustive_loop S mults p lin_combs (ProjectiveSpace F (length Plist)) h)"

text \<open>
  The special case \<open>n == 1 and p == 2\<close>: the \<open>IndexError\<close> of subscripting an empty
  list of division points is caught and means that the point is saturated.
\<close>

definition single_point_2 ::
  "('pt, 'r, 'g, 'f) services \<Rightarrow> 'pt list \<Rightarrow> nat \<Rightarrow> nat \<Rightarrow> 'pt verdict" where
  "single_point_2 S Plist p lin_combs =
     (case division_points S (Plist ! 0) p of
        [] \<Rightarrow> Saturated lin_combs
      | R # _ \<Rightarrow> NotSaturated 0 R)"

text \<open>
  The body of \<open>p_saturation\<close> as the recursive calls of the sieve run it, with
  \<open>sieve=False\<close>: lines 270 to 304.
\<close>

definition p_saturation_False ::
  "('pt::ab_group_add, 'r, 'g, 'f) services \<Rightarrow> 'pt list \<Rightarrow> nat \<Rightarrow> nat \<Rightarrow> 'pt heap
     \<Rightarrow> (error + 'pt verdict) \<times> 'pt heap" where
  "p_saturation_False S Plist p lin_combs h =
     (let n = length Plist
      in if n = 0 then (Inr (Saturated lin_combs), h)
         else if n = 1 \<and> p = 2 then (Inr (single_point_2 S Plist p lin_combs), h)
         else exhaustive_search S Plist p lin_combs h)"

subsection \<open>The sieve (\<open>sieve = True\<close>)\<close>

text \<open>
  The \<open>try\<close> statement around the call of \<open>p_projections\<close>, lines 350 to 356: only
  \<open>ValueError\<close> is caught. The first \<open>ValueError\<close> leads to a second call with
  \<open>debug=True\<close>; a second \<open>ValueError\<close> gives \<open>vecs = []\<close>. Any other exception
  leaves \<open>p_saturation\<close>. The second component of the result lists the calls of
  \<open>p_projections\<close> that were made, each by its argument \<open>debug\<close>.
\<close>

definition projections_with_retry ::
  "('g, 'f) finite_group \<Rightarrow> 'g list \<Rightarrow> nat \<Rightarrow> (error + nat list list) \<times> bool list" where
  "projections_with_retry G projPlist p =
     (case p_projections G projPlist p False of
        Inl ValueError \<Rightarrow>
          (case p_projections G projPlist p True of
             Inl ValueError \<Rightarrow> (Inr [], [False, True])
           | r \<Rightarrow> (r, [False, True]))
      | r \<Rightarrow> (r, [False]))"

text \<open>\<open>next(i for i,x in enumerate(v) if x)\<close>: the position of the first nonzero entry.\<close>

fun first_nonzero :: "nat list \<Rightarrow> error + nat" where
  "first_nonzero [] = Inl StopIteration"
| "first_nonzero (x # xs) =
     (if x \<noteq> 0 then Inr 0
      else case first_nonzero xs of Inl e \<Rightarrow> Inl e | Inr i \<Rightarrow> Inr (Suc i))"

text \<open>\<open>sum([int(vi)*Pi for vi,Pi in zip(v,Plist)], E(0))\<close>\<close>

definition combination :: "'pt::ab_group_add list \<Rightarrow> nat list \<Rightarrow> 'pt" where
  "combination Plist v = foldl (+) 0 (map (\<lambda>(vi, Pi). nmult vi Pi) (zip v Plist))"

text \<open>
  Lines 373 to 394: the kernel of \<open>A\<close>, the points \<open>Rlist\<close> that it gives, the call
  \<open>p_saturation(Rlist, p, sieve=False, lin_combs = dict(), verbose=verbose)\<close> and the
  translation of its answer.
\<close>

definition kernel_check ::
  "('pt::ab_group_add, 'r, 'g, 'f) services \<Rightarrow> 'pt list \<Rightarrow> nat \<Rightarrow> nat \<Rightarrow> nat list list
     \<Rightarrow> 'pt heap \<Rightarrow> (error + 'pt verdict) \<times> 'pt heap" where
  "kernel_check S Plist p lin_combs A h =
     (let vecs = right_kernel_basis S p (length Plist) A;
          Rlist = map (combination Plist) vecs;
          (d, h1) = new_dict h
      in case p_saturation_False S Rlist p d h1 of
           (Inl e, h2) \<Rightarrow> (Inl e, h2)
         | (Inr (Saturated _), h2) \<Rightarrow> (Inr (Saturated lin_combs), h2)
         | (Inr (NotSaturated k R), h2) \<Rightarrow>
             if k < length vecs then
               (case first_nonzero (vecs ! k) of
                  Inl e \<Rightarrow> (Inl e, h2)
                | Inr j \<Rightarrow> (Inr (NotSaturated j R), h2))
             else (Inl IndexError, h2))"

text \<open>The variables of the sieve: the rows of \<open>A\<close>, \<open>rankA\<close> and \<open>count\<close>.\<close>

record sieve_state =
  A :: "nat list list"
  rankA :: nat
  count :: nat

datatype ('s, 'v) flow = Continue 's | Return 'v

text \<open>The body of the inner loop \<open>for amodq in Kpol.roots(Fq, ...)\<close>, lines 331 to 399.\<close>

definition sieve_body ::
  "('pt::ab_group_add, 'r, 'g, 'f) services \<Rightarrow> 'pt list \<Rightarrow> nat \<Rightarrow> nat \<Rightarrow> nat \<Rightarrow> 'r
     \<Rightarrow> sieve_state \<Rightarrow> 'pt heap \<Rightarrow> (error + (sieve_state, 'pt verdict) flow) \<times> 'pt heap" where
  "sieve_body S Plist p lin_combs q amodq st h =
     (if \<not> p dvd reduced_cardinality S q amodq then (Inr (Continue st), h)
      else
        let projPlist = map (reduce_point S q amodq) Plist;
            G = reduced_group S q amodq
        in case fst (projections_with_retry G projPlist p) of
             Inl e \<Rightarrow> (Inl e, h)
           | Inr vecs \<Rightarrow>
              (let A' = A st @ vecs;
                   newrank = rank_Fp S p A'
               in if newrank = length Plist then (Inr (Return (Saturated lin_combs)), h)
                  else if newrank = rankA st then
                    (if count st + 1 = 10 then
                       (case kernel_check S Plist p lin_combs A' h of
                          (Inl e, h') \<Rightarrow> (Inl e, h')
                        | (Inr v, h') \<Rightarrow> (Inr (Return v), h'))
                     else (Inr (Continue (st\<lparr>A := A', count := count st + 1\<rparr>)), h))
                  else (Inr (Continue (st\<lparr>A := A', rankA := newrank, count := 0\<rparr>)), h)))"

fun sieve_roots ::
  "('pt::ab_group_add, 'r, 'g, 'f) services \<Rightarrow> 'pt list \<Rightarrow> nat \<Rightarrow> nat \<Rightarrow> nat \<Rightarrow> 'r list
     \<Rightarrow> sieve_state \<Rightarrow> 'pt heap \<Rightarrow> (error + (sieve_state, 'pt verdict) flow) \<times> 'pt heap" where
  "sieve_roots S Plist p lin_combs q [] st h = (Inr (Continue st), h)"
| "sieve_roots S Plist p lin_combs q (amodq # rest) st h =
     (case sieve_body S Plist p lin_combs q amodq st h of
        (Inr (Continue st'), h') \<Rightarrow> sieve_roots S Plist p lin_combs q rest st' h'
      | r \<Rightarrow> r)"

text \<open>
  \<open>for q in Primes()\<close> runs over \<open>2, 3, 5, 7, ...\<close> and has no end: the statements after
  the loop (lines 408 to 416) are never reached. The model walks the candidates
  \<open>q, q+1, ...\<close>, skips those that are not prime, and counts the candidates in its first
  argument; when that bound is used up the result is \<open>None\<close>, which stands for a loop that
  is still running.
\<close>

definition skipped ::
  "('pt, 'r, 'g, 'f) services \<Rightarrow> 'pt list \<Rightarrow> nat \<Rightarrow> bool" where
  "skipped S Plist q =
     (int q dvd Ediscnorm S \<or> int q dvd Kdisc S
      \<or> list_ex (\<lambda>pr. int q dvd pr) (map (denominator_norm S) Plist))"

fun sieve_primes ::
  "('pt::ab_group_add, 'r, 'g, 'f) services \<Rightarrow> 'pt list \<Rightarrow> nat \<Rightarrow> nat \<Rightarrow> nat \<Rightarrow> nat
     \<Rightarrow> sieve_state \<Rightarrow> 'pt heap \<Rightarrow> ((error + 'pt verdict) \<times> 'pt heap) option" where
  "sieve_primes S Plist p lin_combs 0 q st h = None"
| "sieve_primes S Plist p lin_combs (Suc fuel) q st h =
     (if is_prime q \<and> \<not> skipped S Plist q then
        (case sieve_roots S Plist p lin_combs q (roots_mod S q) st h of
           (Inl e, h') \<Rightarrow> Some (Inl e, h')
         | (Inr (Return v), h') \<Rightarrow> Some (Inr v, h')
         | (Inr (Continue st'), h') \<Rightarrow> sieve_primes S Plist p lin_combs fuel (Suc q) st' h')
      else sieve_primes S Plist p lin_combs fuel (Suc q) st h)"

subsection \<open>\<open>p_saturation\<close>\<close>

text \<open>
  \<open>p_saturation(Plist, p, sieve, lin_combs, verbose)\<close>. \<open>Plist\<close> is only read, so the
  model takes the contents of the list; \<open>lin_combs\<close> is the address of the dict. The
  flag \<open>verbose\<close> only prints and is left out. The first argument bounds the walk over
  the primes.
\<close>

definition p_saturation ::
  "('pt::ab_group_add, 'r, 'g, 'f) services \<Rightarrow> nat \<Rightarrow> 'pt list \<Rightarrow> nat \<Rightarrow> bool \<Rightarrow> nat
     \<Rightarrow> 'pt heap \<Rightarrow> ((error + 'pt verdict) \<times> 'pt heap) option" where
  "p_saturation S fuel Plist p sieve lin_combs h =
     (let n = length Plist
      in if n = 0 then Some (Inr (Saturated lin_combs), h)
         else if n = 1 \<and> p = 2 then Some (Inr (single_point_2 S Plist p lin_combs), h)
         else if \<not> sieve then Some (exhaustive_search S Plist p lin_combs h)
         else sieve_primes S Plist p lin_combs fuel 2 \<lparr>A = [], rankA = 0, count = 0\<rparr> h)"

text \<open>A call that may omit \<open>lin_combs\<close>: the default is the function's own dict.\<close>

definition call_p_saturation ::
  "('pt::ab_group_add, 'r, 'g, 'f) services \<Rightarrow> nat \<Rightarrow> 'pt list \<Rightarrow> nat \<Rightarrow> bool \<Rightarrow> nat option
     \<Rightarrow> 'pt heap \<Rightarrow> ((error + 'pt verdict) \<times> 'pt heap) option" where
  "call_p_saturation S fuel Plist p sieve lin_combs h =
     p_saturation S fuel Plist p sieve
       (case lin_combs of None \<Rightarrow> p_saturation_default | Some d \<Rightarrow> d) h"

subsection \<open>\<open>full_p_saturation\<close>\<close>

text \<open>
  Here \<open>Plist\<close> is the address of the caller's list: the function rebinds the variable
  to new lists (\<open>Plist + [T.element()]\<close>, \<open>Plist[:n]\<close>) and assigns to an item of the
  list the variable refers to (\<open>Plist[res[1]] = res[2]\<close>).

  One turn of \<open>for T in Tgens\<close>, lines 489 to 496.
\<close>

definition torsion_step ::
  "('pt, 'r, 'g, 'f) services \<Rightarrow> nat \<Rightarrow> 'pt \<Rightarrow> nat \<times> nat \<times> 'pt heap \<Rightarrow> nat \<times> nat \<times> 'pt heap" where
  "torsion_step S p T = (\<lambda>(Plist, nx, h).
     if p dvd torsion_order S T then
       (let (Plist', h') = new_list (list_at h Plist @ [T]) h in (Plist', nx + 1, h'))
     else (Plist, nx, h))"

text \<open>
  Lines 484 to 499: the torsion generators are appended and, if there are any, the
  variable \<open>lin_combs\<close> is bound to a new dict. The result is the values of \<open>Plist\<close>,
  \<open>extra_torsion\<close> and \<open>lin_combs\<close>, and the store.
\<close>

definition add_torsion ::
  "('pt, 'r, 'g, 'f) services \<Rightarrow> nat \<Rightarrow> nat \<Rightarrow> nat \<Rightarrow> 'pt heap \<Rightarrow> nat \<times> nat \<times> nat \<times> 'pt heap" where
  "add_torsion S p Plist lin_combs h =
     (let n = length (list_at h Plist);
          (Plist1, nx, h1) = fold (torsion_step S p) (torsion_gens S) (Plist, n, h);
          extra_torsion = nx - n
      in if extra_torsion \<noteq> 0 then
           (let (d, h2) = new_dict h1 in (Plist1, extra_torsion, d, h2))
         else (Plist1, extra_torsion, lin_combs, h1))"

text \<open>
  Lines 506 and 507, \<open>exponent += 1\<close> and \<open>Plist[res[1]] = res[2]\<close>: the item of the
  list object at \<open>Plist\<close> is overwritten.
\<close>

definition replace_point ::
  "nat \<Rightarrow> nat \<Rightarrow> 'pt \<Rightarrow> nat \<Rightarrow> 'pt heap \<Rightarrow> error + nat \<times> 'pt heap" where
  "replace_point Plist i newP exponent h =
     (if i < length (list_at h Plist) then Inr (exponent + 1, list_store Plist i newP h)
      else Inl IndexError)"

text \<open>
  The loop \<open>while not res[0]\<close>, lines 505 to 508. Its result is the values of
  \<open>exponent\<close> and \<open>res\<close> when the loop is left. The loop has no bound of its own; the
  model counts its turns in the argument \<open>fuel\<close> and gives \<open>None\<close> when they are used up.
\<close>

fun saturation_loop ::
  "('pt::ab_group_add, 'r, 'g, 'f) services \<Rightarrow> nat \<Rightarrow> nat \<Rightarrow> nat \<Rightarrow> nat \<Rightarrow> nat \<Rightarrow> nat
     \<Rightarrow> 'pt verdict \<Rightarrow> 'pt heap \<Rightarrow> ((error + nat \<times> 'pt verdict) \<times> 'pt heap) option" where
  "saturation_loop S pfuel p Plist lin_combs fuel exponent (Saturated d) h =
     Some (Inr (exponent, Saturated d), h)"
| "saturation_loop S pfuel p Plist lin_combs 0 exponent (NotSaturated i newP) h = None"
| "saturation_loop S pfuel p Plist lin_combs (Suc fuel) exponent (NotSaturated i newP) h =
     (case replace_point Plist i newP exponent h of
        Inl e \<Rightarrow> Some (Inl e, h)
      | Inr (exponent', h') \<Rightarrow>
         (case p_saturation S pfuel (list_at h' Plist) p True lin_combs h' of
            None \<Rightarrow> None
          | Some (Inl e, h'') \<Rightarrow> Some (Inl e, h'')
          | Some (Inr res', h'') \<Rightarrow>
              saturation_loop S pfuel p Plist lin_combs fuel exponent' res' h''))"

text \<open>Lines 504 to 508: the first call of \<open>p_saturation\<close> and the loop.\<close>

definition saturate ::
  "('pt::ab_group_add, 'r, 'g, 'f) services \<Rightarrow> nat \<Rightarrow> nat \<Rightarrow> nat \<Rightarrow> nat \<Rightarrow> nat
     \<Rightarrow> 'pt heap \<Rightarrow> ((error + nat \<times> 'pt verdict) \<times> 'pt heap) option" where
  "saturate S pfuel fuel p Plist lin_combs h =
     (case p_saturation S pfuel (list_at h Plist) p True lin_combs h of
        None \<Rightarrow> None
      | Some (Inl e, h') \<Rightarrow> Some (Inl e, h')
      | Some (Inr res, h') \<Rightarrow> saturation_loop S pfuel p Plist lin_combs fuel 0 res h')"

text \<open>
  \<open>full_p_saturation(Plist, p, lin_combs, verbose)\<close>; the result is the pair of the
  address of the returned list and the exponent.
\<close>

definition full_p_saturation ::
  "('pt::ab_group_add, 'r, 'g, 'f) services \<Rightarrow> nat \<Rightarrow> nat \<Rightarrow> nat \<Rightarrow> nat \<Rightarrow> nat
     \<Rightarrow> 'pt heap \<Rightarrow> ((error + nat \<times> nat) \<times> 'pt heap) option" where
  "full_p_saturation S pfuel fuel Plist p lin_combs h =
     (if list_at h Plist = [] then Some (Inr (Plist, 0), h)
      else
        let n = length (list_at h Plist);
            (Plist1, extra_torsion, lin_combs1, h1) = add_torsion S p Plist lin_combs h
        in case saturate S pfuel fuel p Plist1 lin_combs1 h1 of
             None \<Rightarrow> None
           | Some (Inl e, h2) \<Rightarrow> Some (Inl e, h2)
           | Some (Inr (exponent, res), h2) \<Rightarrow>
               if extra_torsion \<noteq> 0 then
                 (let (Plist2, h3) = new_list (take n (list_at h2 Plist1)) h2
                  in Some (Inr (Plist2, exponent), h3))
               else Some (Inr (Plist1, exponent), h2))"

definition call_full_p_saturation ::
  "('pt::ab_group_add, 'r, 'g, 'f) services \<Rightarrow> nat \<Rightarrow> nat \<Rightarrow> nat \<Rightarrow> nat \<Rightarrow> nat option
     \<Rightarrow> 'pt heap \<Rightarrow> ((error + nat \<times> nat) \<times> 'pt heap) option" where
  "call_full_p_saturation S pfuel fuel Plist p lin_combs h =
     full_p_saturation S pfuel fuel Plist p
       (case lin_combs of None \<Rightarrow> full_p_saturation_default | Some d \<Rightarrow> d) h"

subsection \<open>Notions used in the statements\<close>

text \<open>
  The docstrings ask of \<open>lin_combs\<close> that it is a dict, possibly empty, "with keys
  coefficient tuples and values the corresponding linear combinations of the points in
  \<open>Plist\<close>". \<open>cache_valid Plist c\<close> says this of the contents \<open>c\<close> of a dict.
  \<open>first_position x w\<close> is the position of the first \<open>x\<close> in \<open>w\<close>.
\<close>

definition cache_valid :: "'pt::ab_group_add list \<Rightarrow> (nat list \<rightharpoonup> 'pt) \<Rightarrow> bool" where
  "cache_valid Plist c = (\<forall>w P. c w = Some P \<longrightarrow> P = combination Plist w)"

text \<open>
  \<open>heap_kept h h'\<close>: from the store \<open>h\<close> to the store \<open>h'\<close> no list has changed, and
  no dict that existed in \<open>h\<close> has changed; objects may have been created.
\<close>

definition heap_kept :: "'pt heap \<Rightarrow> 'pt heap \<Rightarrow> bool" where
  "heap_kept h h' =
     (list_at h' = list_at h \<and> fresh h \<le> fresh h' \<and> (\<forall>d<fresh h. dict_at h' d = dict_at h d))"

definition first_position :: "'a \<Rightarrow> 'a list \<Rightarrow> nat" where
  "first_position x w = length (takeWhile (\<lambda>y. y \<noteq> x) w)"

text \<open>
  \<open>p_saturated Plist p\<close>: no linear combination of the points with a coefficient
  tuple of projective space is \<open>p\<close> times a point of the curve.
  \<open>division_contract S p\<close>: the division-point operation lists exactly the points
  \<open>Q\<close> with \<open>p Q = X\<close>.
\<close>

definition p_saturated :: "'pt::ab_group_add list \<Rightarrow> nat \<Rightarrow> bool" where
  "p_saturated Plist p =
     (\<forall>w\<in>set (ProjectiveSpace p (length Plist)). \<forall>Q. nmult p Q \<noteq> combination Plist w)"

definition division_contract ::
  "('pt::ab_group_add, 'r, 'g, 'f) services \<Rightarrow> nat \<Rightarrow> bool" where
  "division_contract S p = (\<forall>X. set (division_points S X p) = {Q. nmult p Q = X})"

text \<open>
  What the sieve needs of the linear algebra, for matrices with \<open>n\<close> columns. The rank
  does not go down when rows are added and is at most \<open>n\<close>. The vectors of a kernel
  basis have length \<open>n\<close> and are linearly independent over \<open>F_p\<close>: a combination of
  them, \<open>mat_comb c K n\<close>, whose coefficients are not all zero modulo \<open>p\<close> is not zero
  modulo \<open>p\<close>.
\<close>

definition mat_comb :: "nat list \<Rightarrow> nat list list \<Rightarrow> nat \<Rightarrow> nat list" where
  "mat_comb c K n = map (\<lambda>i. sum_list (map (\<lambda>(x, v). x * v ! i) (zip c K))) [0..<n]"

definition rank_ok :: "('pt, 'r, 'g, 'f) services \<Rightarrow> nat \<Rightarrow> nat \<Rightarrow> bool" where
  "rank_ok S p n =
     (\<forall>A vs. list_all (\<lambda>r. length r = n) (A @ vs)
        \<longrightarrow> rank_Fp S p A \<le> rank_Fp S p (A @ vs) \<and> rank_Fp S p (A @ vs) \<le> n)"

definition kernel_ok :: "('pt, 'r, 'g, 'f) services \<Rightarrow> nat \<Rightarrow> nat \<Rightarrow> bool" where
  "kernel_ok S p n =
     (\<forall>A. list_all (\<lambda>r. length r = n) A
        \<longrightarrow> list_all (\<lambda>v. length v = n) (right_kernel_basis S p n A)
            \<and> (\<forall>c. length c = length (right_kernel_basis S p n A)
                    \<and> list_ex (\<lambda>x. x mod p \<noteq> 0) c
                  \<longrightarrow> list_ex (\<lambda>y. y mod p \<noteq> 0) (mat_comb c (right_kernel_basis S p n A) n)))"

text \<open>
  \<open>projections_ok\<close>: the assertion of \<open>p_projections\<close> holds at every reduction.
  \<open>effective S Plist p q\<close>: the candidate \<open>q\<close> is a prime that the sieve does not
  skip, and at one of the roots modulo \<open>q\<close> the reduced curve has \<open>p\<close>-torsion.
\<close>

definition projections_ok ::
  "('pt, 'r, 'g, 'f) services \<Rightarrow> 'pt list \<Rightarrow> nat \<Rightarrow> bool" where
  "projections_ok S Plist p =
     (\<forall>q a. p_projections (reduced_group S q a) (map (reduce_point S q a) Plist) p False
              \<noteq> Inl AssertionError)"

definition effective ::
  "('pt, 'r, 'g, 'f) services \<Rightarrow> 'pt list \<Rightarrow> nat \<Rightarrow> nat \<Rightarrow> bool" where
  "effective S Plist p q =
     (is_prime q \<and> \<not> skipped S Plist q
      \<and> list_ex (\<lambda>a. p dvd reduced_cardinality S q a) (roots_mod S q))"

text \<open>
  For the run of the sieve on a saturated list: the assumptions on the services taken
  together; what holds of the variables of the sieve between two steps (the rows of
  \<open>A\<close> have length \<open>n\<close>, \<open>rankA\<close> is at most the rank of \<open>A\<close>, \<open>count\<close> is
  below ten); and a number that every step at a reduction with \<open>p\<close>-torsion makes
  smaller.
\<close>

definition sieve_setting ::
  "('pt::ab_group_add, 'r, 'g, 'f) services \<Rightarrow> 'pt list \<Rightarrow> nat \<Rightarrow> bool" where
  "sieve_setting S Plist p =
     (is_prime p \<and> p_saturated Plist p \<and> division_contract S p
      \<and> rank_ok S p (length Plist) \<and> kernel_ok S p (length Plist)
      \<and> projections_ok S Plist p)"

definition sieve_inv ::
  "('pt, 'r, 'g, 'f) services \<Rightarrow> nat \<Rightarrow> nat \<Rightarrow> sieve_state \<Rightarrow> bool" where
  "sieve_inv S p n st =
     (list_all (\<lambda>r. length r = n) (A st) \<and> rankA st \<le> rank_Fp S p (A st) \<and> count st \<le> 9)"

definition sieve_potential :: "nat \<Rightarrow> sieve_state \<Rightarrow> nat" where
  "sieve_potential n st = 10 * (n - rankA st) + (10 - count st)"

subsection \<open>A small instance: the group of integers\<close>

text \<open>
  For concrete runs the points are the integers (a curve of rank one without torsion,
  every point written as a multiple of a generator): \<open>division_points P p\<close> is
  \<open>[P div p]\<close> when \<open>p\<close> divides \<open>P\<close> and empty otherwise. Every reduction has the
  trivial group, so the sieve never projects anything.
\<close>

definition trivial_group :: "(unit, unit) finite_group" where
  "trivial_group =
     \<lparr>group_order = 1, group_gens = [], scalar = (\<lambda>_ g. g), is_nonzero = (\<lambda>_. False),
      point_order = (\<lambda>_. 1), weil_pairing = (\<lambda>_ _ _. ()), multiplicative_order = (\<lambda>_. 1),
      dlog_add = (\<lambda>_ _ _. Some 0), dlog_mul = (\<lambda>_ _ _. Some 0)\<rparr>"

definition int_services :: "(int, unit, unit, unit) services" where
  "int_services =
     \<lparr>division_points = (\<lambda>P p. if p \<noteq> 0 \<and> int p dvd P then [P div int p] else []),
      torsion_gens = [], torsion_order = (\<lambda>_. 1),
      Ediscnorm = 1, Kdisc = 1, denominator_norm = (\<lambda>_. 1),
      roots_mod = (\<lambda>_. [()]), reduced_cardinality = (\<lambda>_ _. 1),
      reduced_group = (\<lambda>_ _. trivial_group), reduce_point = (\<lambda>_ _ _. ()),
      rank_Fp = (\<lambda>_ _. 0), right_kernel_basis = (\<lambda>_ _ _. [])\<rparr>"

text \<open>
  A caller's store for \<open>full_p_saturation\<close> over the integers: the list \<open>[8]\<close> is
  the object at address \<open>2\<close>, and the dict at address \<open>3\<close> holds the combination of
  that list for the tuple \<open>(1,)\<close>, as the docstring asks.
\<close>

definition caller_heap :: "int heap" where
  "caller_heap = dict_store 3 [1] 8 (snd (new_dict (snd (new_list [8] module_heap))))"

subsection \<open>An instance of rank three\<close>

text \<open>
  A curve of rank three without torsion: the point \<open>a*P + b*Q + c*R\<close> is the triple
  \<open>(a, b, c)\<close> of its coordinates on the generators \<open>P\<close>, \<open>Q\<close>, \<open>R\<close>. It is
  \<open>p\<close> times another point when \<open>p\<close> divides the three coordinates, and then it has
  one division point. Every reduction has the trivial group.
\<close>

definition lattice_services :: "(int \<times> int \<times> int, unit, unit, unit) services" where
  "lattice_services =
     \<lparr>division_points =
        (\<lambda>(a, b, c) p. if p \<noteq> 0 \<and> int p dvd a \<and> int p dvd b \<and> int p dvd c
                       then [(a div int p, b div int p, c div int p)] else []),
      torsion_gens = [], torsion_order = (\<lambda>_. 1),
      Ediscnorm = 1, Kdisc = 1, denominator_norm = (\<lambda>_. 1),
      roots_mod = (\<lambda>_. [()]), reduced_cardinality = (\<lambda>_ _. 1),
      reduced_group = (\<lambda>_ _. trivial_group), reduce_point = (\<lambda>_ _ _. ()),
      rank_Fp = (\<lambda>_ _. 0), right_kernel_basis = (\<lambda>_ _ _. [])\<rparr>"

subsection \<open>An instance with torsion\<close>

text \<open>
  A curve of rank one with a point of order two: the points are the pairs of an integer
  and a residue modulo \<open>2\<close>, and the torsion subgroup is generated by \<open>(0, 1)\<close>. A
  point \<open>(a, t)\<close> is \<open>p\<close> times another point, for even \<open>p\<close>, when \<open>p\<close> divides
  \<open>a\<close> and \<open>t = 0\<close>, and then it has two division points; for odd \<open>p\<close>, when \<open>p\<close>
  divides \<open>a\<close>, and then it has one.
\<close>

definition torsion_services :: "(int \<times> 2, unit, unit, unit) services" where
  "torsion_services =
     \<lparr>division_points = (\<lambda>(a, t) p.
        if p \<noteq> 0 \<and> int p dvd a then
          (if even p then (if t = 0 then [(a div int p, 0), (a div int p, 1)] else [])
           else [(a div int p, t)])
        else []),
      torsion_gens = [(0, 1)], torsion_order = (\<lambda>_. 2),
      Ediscnorm = 1, Kdisc = 1, denominator_norm = (\<lambda>_. 1),
      roots_mod = (\<lambda>_. [()]), reduced_cardinality = (\<lambda>_ _. 1),
      reduced_group = (\<lambda>_ _. trivial_group), reduce_point = (\<lambda>_ _ _. ()),
      rank_Fp = (\<lambda>_ _. 0), right_kernel_basis = (\<lambda>_ _ _. [])\<rparr>"

subsection \<open>Small finite groups\<close>

text \<open>
  Three groups for concrete runs of \<open>p_projections\<close>. The cyclic group of order \<open>9\<close>
  has the residues modulo \<open>9\<close> as elements and the generator \<open>1\<close>. The group
  \<open>Z/3 x Z/3\<close> has pairs of residues as elements and two generators; a third root of
  unity \<open>zeta^k\<close> is written as its exponent \<open>k\<close>, the pairing of \<open>(a, b)\<close> and
  \<open>(c, d)\<close> is \<open>zeta^(a*d - b*c)\<close>, and the discrete logarithm searches the
  exponents below the order. The third group is the second with a pairing that is
  constantly \<open>1\<close>, as malformed group data would give.
\<close>

definition search_log :: "(nat \<Rightarrow> bool) \<Rightarrow> nat \<Rightarrow> nat option" where
  "search_log ok ord = List.find ok [0..<ord]"

definition cyclic9 :: "(nat, nat) finite_group" where
  "cyclic9 =
     \<lparr>group_order = 9, group_gens = [1], scalar = (\<lambda>m g. (m * g) mod 9),
      is_nonzero = (\<lambda>g. g mod 9 \<noteq> 0),
      point_order = (\<lambda>g. 9 div gcd 9 g),
      weil_pairing = (\<lambda>_ _ _. 0), multiplicative_order = (\<lambda>_. 1),
      dlog_add = (\<lambda>a b ord. search_log (\<lambda>k. (k * b) mod 9 = a mod 9) ord),
      dlog_mul = (\<lambda>_ _ _. None)\<rparr>"



subsection \<open>An instance with reductions\<close>

text \<open>
  The integers again as the points, now with a reduction at every prime: one root, the
  same finite group \<open>G\<close> everywhere and the same map \<open>red\<close> from the points into it.
  The linear algebra is that of matrices with one column, which is all that a list of
  one point needs: the rank is \<open>1\<close> when some entry is not zero modulo \<open>p\<close>, and the
  kernel is spanned by \<open>(1)\<close> when the rank is \<open>0\<close>.
\<close>

definition column_rank :: "nat \<Rightarrow> nat list list \<Rightarrow> nat" where
  "column_rank p rows = (if list_ex (list_ex (\<lambda>x. x mod p \<noteq> 0)) rows then 1 else 0)"

definition column_kernel :: "nat \<Rightarrow> nat \<Rightarrow> nat list list \<Rightarrow> nat list list" where
  "column_kernel p n rows = (if column_rank p rows = 0 then [[1]] else [])"

definition reduced_services ::
  "('g, 'f) finite_group \<Rightarrow> (int \<Rightarrow> 'g) \<Rightarrow> (int, unit, 'g, 'f) services" where
  "reduced_services G red =
     \<lparr>division_points = (\<lambda>P p. if p \<noteq> 0 \<and> int p dvd P then [P div int p] else []),
      torsion_gens = [], torsion_order = (\<lambda>_. 1),
      Ediscnorm = 1, Kdisc = 1, denominator_norm = (\<lambda>_. 1),
      roots_mod = (\<lambda>_. [()]), reduced_cardinality = (\<lambda>_ _. group_order G),
      reduced_group = (\<lambda>_ _. G), reduce_point = (\<lambda>_ _. red),
      rank_Fp = column_rank, right_kernel_basis = column_kernel\<rparr>"

section \<open>Properties\<close>

lemmas store_defs = new_list_def new_dict_def dict_store_def list_store_def module_heap_def
  p_saturation_default_def full_p_saturation_default_def

subsection \<open>Empty point lists\<close>

text \<open>
  Claim C4, as the code has it: an empty point list raises nothing. \<open>p_saturation\<close>
  returns \<open>(True, lin_combs)\<close> at once, whatever the prime, the strategy and the dict,
  and \<open>full_p_saturation\<close> returns the pair of the caller's own list object and the
  exponent \<open>0\<close>; the store is left as it was.
\<close>

theorem empty_list_returns_verdict:
  "p_saturation S fuel [] p sieve lin_combs h = Some (Inr (Saturated lin_combs), h)
   \<and> full_p_saturation S pfuel fuel' Plist p lin_combs' (h\<lparr>list_at := (list_at h)(Plist := [])\<rparr>)
       = Some (Inr (Plist, 0), h\<lparr>list_at := (list_at h)(Plist := [])\<rparr>)"
  by (simp add: p_saturation_def full_p_saturation_def)

text \<open>
  Claim C4 as stated fails: on the empty list, over the integers and with \<open>p = 2\<close>,
  both strategies of \<open>p_saturation\<close> return the verdict "saturated" and
  \<open>full_p_saturation\<close> returns the list at address \<open>2\<close> with exponent \<open>0\<close>; no
  exception is raised.
\<close>

theorem empty_list_no_contract_violation:
  "p_saturation int_services 0 [] 2 True p_saturation_default module_heap
     = Some (Inr (Saturated p_saturation_default), module_heap)
   \<and> p_saturation int_services 0 [] 2 False p_saturation_default module_heap
     = Some (Inr (Saturated p_saturation_default), module_heap)
   \<and> full_p_saturation int_services 0 0 2 2 full_p_saturation_default (snd (new_list [] module_heap))
     = Some (Inr (2, 0), snd (new_list [] module_heap))"
  by (simp add: p_saturation_def full_p_saturation_def store_defs)

subsection \<open>One point and \<open>p = 2\<close>\<close>

text \<open>
  Claim C8. For a list of one point \<open>P\<close> and \<open>p = 2\<close>, with either strategy,
  \<open>p_saturation\<close> asks the curve for the division points of \<open>P\<close> by \<open>2\<close> and does
  nothing else: if there is none the result is \<open>(True, lin_combs)\<close> with the dict it was
  given, and otherwise it is \<open>(False, 0, R)\<close> with \<open>R\<close> the first division point. When
  the division-point operation lists exactly the halves of \<open>P\<close>: a point without a half
  is reported saturated; a point with a half gives \<open>(False, 0, R)\<close> for a half \<open>R\<close>;
  and when the half is unique, \<open>R\<close> is that half.
\<close>

theorem single_point_2_saturation:
  fixes S :: "('pt::ab_group_add, 'r, 'g, 'f) services"
  shows "(division_points S P 2 = [] \<longrightarrow>
            p_saturation S fuel [P] 2 sieve lin_combs h = Some (Inr (Saturated lin_combs), h))
       \<and> (\<forall>R rest. division_points S P 2 = R # rest \<longrightarrow>
            p_saturation S fuel [P] 2 sieve lin_combs h = Some (Inr (NotSaturated 0 R), h))
       \<and> (set (division_points S P 2) = {R. R + R = P} \<longrightarrow>
            ((\<forall>R. R + R \<noteq> P) \<longrightarrow>
               p_saturation S fuel [P] 2 sieve lin_combs h = Some (Inr (Saturated lin_combs), h))
          \<and> ((\<exists>R. R + R = P) \<longrightarrow>
               (\<exists>R. R + R = P
                  \<and> p_saturation S fuel [P] 2 sieve lin_combs h = Some (Inr (NotSaturated 0 R), h)))
          \<and> (\<forall>R. R + R = P \<and> (\<forall>R'. R' + R' = P \<longrightarrow> R' = R) \<longrightarrow>
               p_saturation S fuel [P] 2 sieve lin_combs h = Some (Inr (NotSaturated 0 R), h)))"
proof -
  have run: "p_saturation S fuel [P] 2 sieve lin_combs h
               = Some (Inr (single_point_2 S [P] 2 lin_combs), h)"
    by (simp add: p_saturation_def)
  have none: "division_points S P 2 = [] \<Longrightarrow> single_point_2 S [P] 2 lin_combs = Saturated lin_combs"
    by (simp add: single_point_2_def)
  have first: "division_points S P 2 = R # rest \<Longrightarrow> single_point_2 S [P] 2 lin_combs = NotSaturated 0 R"
    for R rest
    by (simp add: single_point_2_def)
  have some: "\<exists>R. R + R = P \<and> single_point_2 S [P] 2 lin_combs = NotSaturated 0 R"
    if contract: "set (division_points S P 2) = {R. R + R = P}" and half: "\<exists>R. R + R = P"
  proof (cases "division_points S P 2")
    case Nil
    with contract half show ?thesis by auto
  next
    case (Cons R0 rest)
    then have "R0 \<in> set (division_points S P 2)" by simp
    with contract have "R0 + R0 = P" by simp
    with Cons show ?thesis by (auto simp: first)
  qed
  have uniq: "single_point_2 S [P] 2 lin_combs = NotSaturated 0 R"
    if contract: "set (division_points S P 2) = {R. R + R = P}"
      and half: "R + R = P" and only: "\<forall>R'. R' + R' = P \<longrightarrow> R' = R" for R
  proof -
    from some [OF contract] half obtain R0
      where "R0 + R0 = P" "single_point_2 S [P] 2 lin_combs = NotSaturated 0 R0"
      by blast
    with only show ?thesis by simp
  qed
  have empty: "division_points S P 2 = []"
    if contract: "set (division_points S P 2) = {R. R + R = P}" and no: "\<forall>R. R + R \<noteq> P"
    using that by auto
  show ?thesis
    unfolding run
  proof (intro conjI impI allI)
    assume "division_points S P 2 = []"
    then show "Some (Inr (single_point_2 S [P] 2 lin_combs), h) = Some (Inr (Saturated lin_combs), h)"
      by (simp add: none)
  next
    fix R rest assume "division_points S P 2 = R # rest"
    then show "Some (Inr (single_point_2 S [P] 2 lin_combs), h) = Some (Inr (NotSaturated 0 R), h)"
      by (simp add: first)
  next
    assume "set (division_points S P 2) = {R. R + R = P}" "\<forall>R. R + R \<noteq> P"
    then show "Some (Inr (single_point_2 S [P] 2 lin_combs), h) = Some (Inr (Saturated lin_combs), h)"
      by (simp add: none empty)
  next
    assume "set (division_points S P 2) = {R. R + R = P}" "\<exists>R. R + R = P"
    from some [OF this]
    show "\<exists>R. R + R = P
      \<and> Some (Inr (single_point_2 S [P] 2 lin_combs), h) = Some (Inr (NotSaturated 0 R), h)"
      by auto
  next
    fix R assume "set (division_points S P 2) = {R. R + R = P}"
      "R + R = P \<and> (\<forall>R'. R' + R' = P \<longrightarrow> R' = R)"
    then show "Some (Inr (single_point_2 S [P] 2 lin_combs), h) = Some (Inr (NotSaturated 0 R), h)"
      by (simp add: uniq)
  qed
qed

text \<open>
  Over the integers: \<open>1\<close> has no half and is reported saturated; \<open>8\<close> has the one
  half \<open>4\<close>, which is returned for position \<open>0\<close>. On the curve with a point of order
  two, \<open>(8, 0)\<close> has the two halves \<open>(4, 0)\<close> and \<open>(4, 1)\<close>, and the first one listed
  is returned.
\<close>

theorem single_point_2_saturation_witness:
  "p_saturation int_services 0 [1] 2 True p_saturation_default module_heap
     = Some (Inr (Saturated p_saturation_default), module_heap)
   \<and> p_saturation int_services 0 [8] 2 True p_saturation_default module_heap
     = Some (Inr (NotSaturated 0 4), module_heap)
   \<and> p_saturation torsion_services 0 [(8, 0)] 2 True p_saturation_default module_heap
     = Some (Inr (NotSaturated 0 (4, 0)), module_heap)"
proof -
  let ?S = "int_services"
  have d1: "division_points ?S 1 2 = []" by (simp add: int_services_def)
  have d8: "division_points ?S 8 2 = [4]" by (simp add: int_services_def)
  have c8: "set (division_points ?S 8 2) = {R. R + R = 8}"
    unfolding d8 by auto
  have u8: "(4::int) + 4 = 8 \<and> (\<forall>R'::int. R' + R' = 8 \<longrightarrow> R' = 4)" by auto
  from single_point_2_saturation [of ?S 1 0 True p_saturation_default module_heap] d1
  have a: "p_saturation ?S 0 [1] 2 True p_saturation_default module_heap
     = Some (Inr (Saturated p_saturation_default), module_heap)" by blast
  from single_point_2_saturation [of ?S 8 0 True p_saturation_default module_heap] c8 u8
  have b: "p_saturation ?S 0 [8] 2 True p_saturation_default module_heap
     = Some (Inr (NotSaturated 0 4), module_heap)" by blast
  have dt: "division_points torsion_services (8, 0) 2 = [(4, 0), (4, 1)]"
    by (simp add: torsion_services_def)
  from single_point_2_saturation
    [of torsion_services "(8, 0)" 0 True p_saturation_default module_heap] dt
  have c: "p_saturation torsion_services 0 [(8, 0)] 2 True p_saturation_default module_heap
     = Some (Inr (NotSaturated 0 (4, 0)), module_heap)" by blast
  from a b c show ?thesis by simp
qed

subsection \<open>Runs over the integers\<close>

lemma int_division_points [simp]:
  "division_points int_services P p = (if p \<noteq> 0 \<and> int p dvd P then [P div int p] else [])"
  by (simp add: int_services_def)

lemma int_torsion_gens [simp]: "torsion_gens int_services = []"
  by (simp add: int_services_def)

lemma is_prime_2: "is_prime 2"
  by (simp add: is_prime_def)

lemma is_prime_3: "is_prime 3"
  by (simp add: is_prime_def upt_conv_Cons)

lemma exhaustive_search_prime:
  "is_prime p \<Longrightarrow>
   exhaustive_search S Plist p lin_combs h
     = exhaustive_loop S (mults_tables Plist p) p lin_combs (ProjectiveSpace p (length Plist)) h"
  by (simp add: exhaustive_search_def GF_def)

lemma exhaustive_search_not_prime:
  "\<not> is_prime p \<Longrightarrow> exhaustive_search S Plist p lin_combs h = (Inl ValueError, h)"
  by (simp add: exhaustive_search_def GF_def)

lemma ProjectiveSpace_one: "ProjectiveSpace p (Suc 0) = [[1]]"
  by (simp add: ProjectiveSpace_def)

lemma mults_single: "mults_tables [P] p = [[0, P]]"
  by (simp add: mults_tables_def multiples_def numeral_2_eq_2)

lemma exhaustive_single:
  "is_prime p \<Longrightarrow>
   exhaustive_search S [P] p d h =
     (case dict_at h d [1] of
        Some Q \<Rightarrow>
          (if division_points S Q p \<noteq> []
           then (Inr (NotSaturated 0 (hd (division_points S Q p))), h)
           else (Inr (Saturated d), h))
      | None \<Rightarrow>
          (if division_points S P p \<noteq> []
           then (Inr (NotSaturated 0 (hd (division_points S P p))), dict_store d [1] P h)
           else (Inr (Saturated d), dict_store d [1] P h)))"
  by (simp add: exhaustive_search_prime ProjectiveSpace_one mults_single lookup_or_compute_def
      table_sum_def split: option.splits)

text \<open>
  Claim C1 at a failing input, the run \<open>full_p_saturation([8*P], 2)\<close> of the function's
  own examples, with the integer \<open>k\<close> for the point \<open>k*P\<close>. The caller's list is the
  object at address \<open>2\<close> and holds \<open>[8]\<close>. There is no torsion, so no new list is made:
  the three replacements are written into the caller's object, which holds \<open>[1]\<close> when
  the function returns, and the list returned is that same object.
\<close>

theorem caller_list_overwritten:
  "fst (new_list [8] module_heap) = 2
   \<and> list_at (snd (new_list [8] module_heap)) 2 = [8]
   \<and> map_option (\<lambda>(r, h'). (r, list_at h' 2))
        (call_full_p_saturation int_services 0 3 2 2 None (snd (new_list [8] module_heap)))
      = Some (Inr (2, 3), [1])"
  by (simp add: call_full_p_saturation_def full_p_saturation_def add_torsion_def saturate_def
      p_saturation_def single_point_2_def replace_point_def store_defs numeral_3_eq_3)

text \<open>
  Claim C10 at a failing input: two calls of \<open>p_saturation\<close> with \<open>sieve=False\<close> that
  both omit \<open>lin_combs\<close>, the first on \<open>[1]\<close> and the second on \<open>[3]\<close>, with
  \<open>p = 3\<close>. The first call stores the combination for the tuple \<open>(1,)\<close> in the
  function's default dict. The second call finds it there, tests the point \<open>1\<close> of the
  first call instead of its own point \<open>3\<close>, and reports "saturated"; the same call
  straight after the module is loaded reports \<open>(False, 0, 1)\<close>.
\<close>

theorem default_dict_shared_between_calls:
  "(case call_p_saturation int_services 0 [1] 3 False None module_heap of
      Some (r1, h1) \<Rightarrow> map_option fst (call_p_saturation int_services 0 [3] 3 False None h1)
    | None \<Rightarrow> None) = Some (Inr (Saturated p_saturation_default))
   \<and> map_option fst (call_p_saturation int_services 0 [3] 3 False None module_heap)
      = Some (Inr (NotSaturated 0 1))"
  by (simp add: call_p_saturation_def p_saturation_def exhaustive_single [OF is_prime_3]
      store_defs)


subsection \<open>The results of \<open>p_projections\<close>\<close>















subsection \<open>Failures of \<open>p_projections\<close> inside the sieve\<close>

lemma p_projections_debug: "p_projections G Plist p True = p_projections G Plist p False"
  by (simp add: p_projections_def)










subsection \<open>The tuples of projective space and the tables of multiples\<close>

lemma set_product_lists_replicate:
  "set (List.product_lists (replicate m xs)) = {v. length v = m \<and> set v \<subseteq> set xs}"
proof (induction m)
  case 0
  show ?case by auto
next
  case (Suc m)
  show ?case
  proof (intro equalityI subsetI)
    fix v assume "v \<in> set (List.product_lists (replicate (Suc m) xs))"
    then show "v \<in> {v. length v = Suc m \<and> set v \<subseteq> set xs}"
      using Suc.IH by auto
  next
    fix v assume "v \<in> {v. length v = Suc m \<and> set v \<subseteq> set xs}"
    then obtain y ys where v: "v = y # ys" and "y \<in> set xs" "length ys = m" "set ys \<subseteq> set xs"
      by (cases v) auto
    then have "ys \<in> set (List.product_lists (replicate m xs))"
      using Suc.IH by simp
    with v \<open>y \<in> set xs\<close> show "v \<in> set (List.product_lists (replicate (Suc m) xs))"
      by auto
  qed
qed

lemma ProjectiveSpace_iff:
  "w \<in> set (ProjectiveSpace p n) \<longleftrightarrow>
     (\<exists>k v. k < n \<and> length v = n - 1 - k \<and> set v \<subseteq> {..<p} \<and> w = v @ [1] @ replicate k 0)"
proof
  assume "w \<in> set (ProjectiveSpace p n)"
  then obtain k v where "k < n"
    "v \<in> set (List.product_lists (replicate (n - 1 - k) [0..<p]))"
    "w = v @ [1] @ replicate k 0"
    by (auto simp: ProjectiveSpace_def)
  then have "k < n \<and> length v = n - 1 - k \<and> set v \<subseteq> {..<p} \<and> w = v @ [1] @ replicate k 0"
    by (auto simp: set_product_lists_replicate)
  then show "\<exists>k v. k < n \<and> length v = n - 1 - k \<and> set v \<subseteq> {..<p} \<and> w = v @ [1] @ replicate k 0"
    by blast
next
  assume "\<exists>k v. k < n \<and> length v = n - 1 - k \<and> set v \<subseteq> {..<p} \<and> w = v @ [1] @ replicate k 0"
  then obtain k v where k: "k < n" and v: "length v = n - 1 - k" "set v \<subseteq> {..<p}"
    and w: "w = v @ [1] @ replicate k 0"
    by blast
  from v have "v \<in> set (List.product_lists (replicate (n - 1 - k) [0..<p]))"
    by (auto simp: set_product_lists_replicate)
  then have "w \<in> (\<lambda>v. v @ [1] @ replicate k 0)
                 ` set (List.product_lists (replicate (n - 1 - k) [0..<p]))"
    using w by blast
  with k show "w \<in> set (ProjectiveSpace p n)"
    by (auto simp: ProjectiveSpace_def)
qed

lemma ProjectiveSpace_length: "w \<in> set (ProjectiveSpace p n) \<Longrightarrow> length w = n"
  by (auto simp: ProjectiveSpace_iff)

lemma ProjectiveSpace_entries:
  assumes "w \<in> set (ProjectiveSpace p n)" "2 \<le> p"
  shows "\<forall>c\<in>set w. c < p"
  using assms by (auto simp: ProjectiveSpace_iff)

lemma ProjectiveSpace_last:
  assumes "w \<in> set (ProjectiveSpace p n)"
  shows "w \<noteq> [] \<and> last w < 2"
proof -
  from assms obtain k v where w: "w = v @ [1] @ replicate k 0"
    by (auto simp: ProjectiveSpace_iff)
  show ?thesis
    by (cases k) (simp_all add: w)
qed

lemma ProjectiveSpace_has_one: "w \<in> set (ProjectiveSpace p n) \<Longrightarrow> 1 \<in> set w"
  by (auto simp: ProjectiveSpace_iff)

lemma distinct_concat_map:
  assumes "distinct ks"
    and "\<And>k. k \<in> set ks \<Longrightarrow> distinct (f k)"
    and "\<And>k k'. k \<in> set ks \<Longrightarrow> k' \<in> set ks \<Longrightarrow> k \<noteq> k' \<Longrightarrow> set (f k) \<inter> set (f k') = {}"
  shows "distinct (concat (map f ks))"
  using assms
proof (induction ks)
  case Nil
  show ?case by simp
next
  case (Cons k ks)
  have "distinct (concat (map f ks))"
    using Cons.prems by (intro Cons.IH) auto
  moreover have "distinct (f k)" using Cons.prems(2) by simp
  moreover have "set (f k) \<inter> set (f k') = {}" if "k' \<in> set ks" for k'
    using Cons.prems(1) Cons.prems(3) [of k k'] that by auto
  ultimately show ?case by auto
qed

lemma trailing_zeros:
  "length (takeWhile (\<lambda>x. x = 0) (rev (v @ [1::nat] @ replicate k 0))) = k"
proof -
  have "takeWhile (\<lambda>x. x = 0) (replicate k 0 @ Suc 0 # rev v) = replicate k 0"
    by (subst takeWhile_append2) simp_all
  then show ?thesis by simp
qed

lemma ProjectiveSpace_distinct: "distinct (ProjectiveSpace p n)"
  unfolding ProjectiveSpace_def
proof (rule distinct_concat_map)
  show "distinct [0..<n]" by simp
next
  fix k
  have "distinct (List.product_lists (replicate (n - 1 - k) [0..<p]))"
    by (rule distinct_product_lists) simp
  then show "distinct (map (\<lambda>v. v @ [1] @ replicate k 0)
                   (List.product_lists (replicate (n - 1 - k) [0..<p])))"
    by (simp add: distinct_map inj_on_def)
next
  fix k k' :: nat
  assume "k \<noteq> k'"
  show "set (map (\<lambda>v. v @ [1] @ replicate k 0)
               (List.product_lists (replicate (n - 1 - k) [0..<p])))
        \<inter> set (map (\<lambda>v. v @ [1] @ replicate k' 0)
               (List.product_lists (replicate (n - 1 - k') [0..<p]))) = {}"
  proof (rule ccontr)
    assume "\<not> ?thesis"
    then obtain v v' :: "nat list" where "v @ [1] @ replicate k 0 = v' @ [1] @ replicate k' 0"
      by auto
    then have "length (takeWhile (\<lambda>x. x = 0) (rev (v @ [1::nat] @ replicate k 0)))
             = length (takeWhile (\<lambda>x. x = 0) (rev (v' @ [1::nat] @ replicate k' 0)))"
      by simp
    then have "k = k'" unfolding trailing_zeros .
    with \<open>k \<noteq> k'\<close> show False by simp
  qed
qed

lemma length_product_lists_replicate:
  "length (List.product_lists (replicate m xs)) = length xs ^ m"
  by (induction m) (simp_all add: length_concat comp_def sum_list_triv)

lemma geometric_sum_nat:
  "0 < p \<Longrightarrow> (\<Sum>i<n. p ^ i) * (p - 1) + 1 = (p::nat) ^ n"
proof (induction n)
  case 0
  show ?case by simp
next
  case (Suc n)
  then have "(\<Sum>i<n. p ^ i) * (p - 1) + 1 = p ^ n" by simp
  then have "(\<Sum>i<Suc n. p ^ i) * (p - 1) + 1 = p ^ n + p ^ n * (p - 1)"
    by (simp add: algebra_simps)
  also have "\<dots> = p ^ n * (1 + (p - 1))" by (simp add: algebra_simps)
  also have "\<dots> = p ^ Suc n" using Suc.prems by simp
  finally show ?case .
qed

lemma ProjectiveSpace_count:
  assumes "0 < p"
  shows "length (ProjectiveSpace p n) * (p - 1) + 1 = p ^ n"
proof -
  have "length (ProjectiveSpace p n) = sum_list (map (\<lambda>k. p ^ (n - 1 - k)) [0..<n])"
    by (simp add: ProjectiveSpace_def length_concat comp_def length_product_lists_replicate)
  also have "\<dots> = (\<Sum>k<n. p ^ (n - Suc k))"
    by (simp add: interv_sum_list_conv_sum_set_nat atLeast0LessThan)
  also have "\<dots> = (\<Sum>k<n. p ^ k)"
    by (rule sum.nat_diff_reindex)
  finally show ?thesis using geometric_sum_nat [OF assms] by simp
qed

lemma tuple_index_position:
  "x \<in> set w \<Longrightarrow> tuple_index w x = Inr (first_position x w)"
  by (induction w) (auto simp: first_position_def)

lemma first_position_nth:
  "x \<in> set w \<Longrightarrow> first_position x w < length w \<and> w ! first_position x w = x"
  by (induction w) (auto simp: first_position_def)

lemma length_mults_tables: "Plist \<noteq> [] \<Longrightarrow> length (mults_tables Plist p) = length Plist"
  by (simp add: mults_tables_def)

lemma mults_tables_nth:
  assumes "i < length Plist"
  shows "mults_tables Plist p ! i
     = map (\<lambda>k. nmult k (Plist ! i)) [0..<(if Suc i = length Plist then 2 else p)]"
proof (cases "Suc i = length Plist")
  case True
  then have "i = length (butlast Plist)" by simp
  then have "mults_tables Plist p ! i = multiples (last Plist) 2"
    by (simp add: mults_tables_def nth_append)
  moreover have "last Plist = Plist ! i"
    using True assms by (metis diff_Suc_1 last_conv_nth length_greater_0_conv less_nat_zero_code
        list.size(3))
  ultimately show ?thesis using True by (simp add: multiples_def)
next
  case False
  with assms have "i < length (butlast Plist)" by simp
  then have "mults_tables Plist p ! i = multiples (butlast Plist ! i) p"
    by (simp add: mults_tables_def nth_append)
  moreover have "butlast Plist ! i = Plist ! i"
    using \<open>i < length (butlast Plist)\<close> by (simp add: nth_butlast)
  ultimately show ?thesis using False by (simp add: multiples_def)
qed

lemma table_sum_combination:
  assumes len: "length w = length Plist" and ne: "Plist \<noteq> []"
    and small: "\<forall>c\<in>set w. c < p" and lst: "last w < 2"
  shows "table_sum (mults_tables Plist p) w = Inr (combination Plist w)"
proof -
  let ?M = "mults_tables Plist p"
  have lenM: "length ?M = length w" using len ne by (simp add: length_mults_tables)
  have bound: "w ! i < length (?M ! i)" if "i < length w" for i
  proof (cases "Suc i = length Plist")
    case True
    then have "w ! i = last w" using that len by (metis diff_Suc_1 last_conv_nth length_0_conv ne)
    then show ?thesis using that len True lst by (simp add: mults_tables_nth)
  next
    case False
    then show ?thesis using that len small by (simp add: mults_tables_nth)
  qed
  have ok: "list_all (\<lambda>(m, c). c < length m) (zip ?M w)"
    using bound lenM by (simp add: list_all_length)
  have entry: "(?M ! i) ! (w ! i) = nmult (w ! i) (Plist ! i)" if "i < length w" for i
    using bound [OF that] that len by (simp add: mults_tables_nth)
  have "map (\<lambda>(m, c). m ! c) (zip ?M w) = map (\<lambda>(vi, Pi). nmult vi Pi) (zip w Plist)"
    using entry lenM len by (simp add: list_eq_iff_nth_eq)
  with ok show ?thesis by (simp add: table_sum_def combination_def)
qed

lemma ProjectiveSpace_table_sum:
  assumes "w \<in> set (ProjectiveSpace p (length Plist))" "2 \<le> p" "Plist \<noteq> []"
  shows "table_sum (mults_tables Plist p) w = Inr (combination Plist w)"
  using assms ProjectiveSpace_length ProjectiveSpace_entries ProjectiveSpace_last
  by (intro table_sum_combination) auto


subsection \<open>The exhaustive search\<close>

lemma p_saturation_False_eq:
  "p_saturation S fuel Plist p False lin_combs h = Some (p_saturation_False S Plist p lin_combs h)"
  by (simp add: p_saturation_def p_saturation_False_def Let_def)

lemma lookup_or_compute_frame:
  assumes "lookup_or_compute mults lc w h = (r, h')"
  shows "list_at h' = list_at h \<and> fresh h' = fresh h
         \<and> (\<forall>d. d \<noteq> lc \<longrightarrow> dict_at h' d = dict_at h d)"
  using assms
  by (auto simp: lookup_or_compute_def dict_store_def split: option.splits sum.splits)

lemma lookup_or_compute_valid:
  assumes "cache_valid Plist (dict_at h lc)"
    and "table_sum mults w = Inr (combination Plist w)"
  shows "fst (lookup_or_compute mults lc w h) = Inr (combination Plist w)
         \<and> cache_valid Plist (dict_at (snd (lookup_or_compute mults lc w h)) lc)"
  using assms
  by (auto simp: lookup_or_compute_def dict_store_def cache_valid_def split: option.splits)

lemma exhaustive_loop_frame:
  "exhaustive_loop S mults p lc ws h = (r, h')
   \<Longrightarrow> list_at h' = list_at h \<and> fresh h' = fresh h
        \<and> (\<forall>d. d \<noteq> lc \<longrightarrow> dict_at h' d = dict_at h d)
        \<and> (\<forall>d. r = Inr (Saturated d) \<longrightarrow> d = lc)"
proof (induction ws arbitrary: h)
  case Nil
  then show ?case by auto
next
  case (Cons w ws)
  obtain r1 h1 where l: "lookup_or_compute mults lc w h = (r1, h1)"
    by (cases "lookup_or_compute mults lc w h")
  note f1 = lookup_or_compute_frame [OF l]
  show ?case
  proof (cases r1)
    case (Inl e)
    with Cons.prems l f1 show ?thesis by auto
  next
    case (Inr P)
    show ?thesis
    proof (cases "division_points S P p \<noteq> []")
      case True
      with Cons.prems l Inr f1 show ?thesis
        by (auto split: sum.splits)
    next
      case False
      with Cons.prems l Inr have "exhaustive_loop S mults p lc ws h1 = (r, h')"
        by simp
      from Cons.IH [OF this] f1 show ?thesis by simp
    qed
  qed
qed

lemma exhaustive_loop_verdict:
  assumes "cache_valid Plist (dict_at h lc)"
    and "\<forall>w\<in>set ws. table_sum mults w = Inr (combination Plist w)"
    and "\<forall>w\<in>set ws. 1 \<in> set w"
  shows "fst (exhaustive_loop S mults p lc ws h)
     = (case List.find (\<lambda>w. division_points S (combination Plist w) p \<noteq> []) ws of
          None \<Rightarrow> Inr (Saturated lc)
        | Some w \<Rightarrow> Inr (NotSaturated (first_position 1 w)
                          (hd (division_points S (combination Plist w) p))))"
  using assms
proof (induction ws arbitrary: h)
  case Nil
  then show ?case by simp
next
  case (Cons w ws)
  obtain r1 h1 where l: "lookup_or_compute mults lc w h = (r1, h1)"
    by (cases "lookup_or_compute mults lc w h")
  from lookup_or_compute_valid [of Plist h lc mults w] Cons.prems l
  have r1: "r1 = Inr (combination Plist w)" and v1: "cache_valid Plist (dict_at h1 lc)"
    by simp_all
  have one: "tuple_index w 1 = Inr (first_position 1 w)"
    using Cons.prems by (simp add: tuple_index_position)
  show ?case
  proof (cases "division_points S (combination Plist w) p \<noteq> []")
    case True
    then show ?thesis using one by (simp add: l r1)
  next
    case False
    have "fst (exhaustive_loop S mults p lc ws h1)
     = (case List.find (\<lambda>w. division_points S (combination Plist w) p \<noteq> []) ws of
          None \<Rightarrow> Inr (Saturated lc)
        | Some w \<Rightarrow> Inr (NotSaturated (first_position 1 w)
                          (hd (division_points S (combination Plist w) p))))"
      using Cons.prems v1 by (intro Cons.IH) simp_all
    with False show ?thesis by (simp add: l r1)
  qed
qed

lemma exhaustive_loop_valid:
  assumes "cache_valid Plist (dict_at h lc)"
    and "\<forall>w\<in>set ws. table_sum mults w = Inr (combination Plist w)"
  shows "cache_valid Plist (dict_at (snd (exhaustive_loop S mults p lc ws h)) lc)"
  using assms
proof (induction ws arbitrary: h)
  case Nil
  then show ?case by simp
next
  case (Cons w ws)
  obtain r1 h1 where l: "lookup_or_compute mults lc w h = (r1, h1)"
    by (cases "lookup_or_compute mults lc w h")
  from lookup_or_compute_valid [of Plist h lc mults w] Cons.prems l
  have r1: "r1 = Inr (combination Plist w)" and v1: "cache_valid Plist (dict_at h1 lc)"
    by simp_all
  have "cache_valid Plist (dict_at (snd (exhaustive_loop S mults p lc ws h1)) lc)"
    using Cons.prems v1 by (intro Cons.IH) simp_all
  with v1 show ?case
    by (simp add: l r1 Let_def split: sum.splits)
qed

lemma exhaustive_search_verdict:
  assumes "cache_valid Plist (dict_at h lc)" "is_prime p" "Plist \<noteq> []"
  shows "fst (exhaustive_search S Plist p lc h)
     = (case List.find (\<lambda>w. division_points S (combination Plist w) p \<noteq> [])
               (ProjectiveSpace p (length Plist)) of
          None \<Rightarrow> Inr (Saturated lc)
        | Some w \<Rightarrow> Inr (NotSaturated (first_position 1 w)
                          (hd (division_points S (combination Plist w) p))))"
proof -
  have p: "2 \<le> p" using assms(2) by (simp add: is_prime_def)
  show ?thesis
    unfolding exhaustive_search_prime [OF assms(2)]
    using assms(1,3) p
    using ProjectiveSpace_has_one [of _ p "length Plist"]
    by (intro exhaustive_loop_verdict) (auto simp: ProjectiveSpace_table_sum)
qed


lemma ProjectiveSpace_normalised:
  assumes p: "2 \<le> p"
  shows "w \<in> set (ProjectiveSpace p n) \<longleftrightarrow>
     length w = n \<and> set w \<subseteq> {..<p}
     \<and> (\<exists>i<n. w ! i = 1 \<and> (\<forall>j<n. i < j \<longrightarrow> w ! j = 0))"
  (is "?L \<longleftrightarrow> ?R")
proof
  assume ?L
  then obtain k v where k: "k < n" and v: "length v = n - 1 - k" "set v \<subseteq> {..<p}"
    and w: "w = v @ [1] @ replicate k 0"
    by (auto simp: ProjectiveSpace_iff)
  have len: "length w = n" using k v w by simp
  have i: "length v < n" using k v by simp
  have one: "w ! length v = 1" using w by (simp add: nth_append)
  have zero: "w ! j = 0" if "j < n" "length v < j" for j
    using that w k v by (simp add: nth_append nth_Cons')
  have small: "set w \<subseteq> {..<p}" using v w p by auto
  from i one zero have "\<exists>i<n. w ! i = 1 \<and> (\<forall>j<n. i < j \<longrightarrow> w ! j = 0)" by blast
  with len small show ?R by simp
next
  assume r: ?R
  then obtain i where i: "i < n" and one: "w ! i = 1"
    and zero: "\<forall>j<n. i < j \<longrightarrow> w ! j = 0"
    by blast
  from r have len: "length w = n" and small: "set w \<subseteq> {..<p}" by simp_all
  let ?k = "n - 1 - i"
  have tail: "drop (Suc i) w = replicate ?k 0"
    using len zero i by (auto simp: list_eq_iff_nth_eq)
  have "w = take i w @ w ! i # drop (Suc i) w"
    using i len by (simp add: id_take_nth_drop)
  then have w: "w = take i w @ [1] @ replicate ?k 0"
    using one tail by simp
  have "set (take i w) \<subseteq> {..<p}"
    using small set_take_subset by fastforce
  moreover have "length (take i w) = n - 1 - ?k" "?k < n"
    using i len by simp_all
  ultimately show ?L
    using w unfolding ProjectiveSpace_iff by blast
qed

text \<open>
  The enumeration for three points, over the fields of two and of three elements: the
  last free coordinate runs fastest, and the tuples that end in zeros come last.
\<close>

lemma ProjectiveSpace_2_3:
  "ProjectiveSpace 2 (Suc (Suc (Suc 0)))
     = [[0, 0, 1], [0, 1, 1], [1, 0, 1], [1, 1, 1], [0, 1, 0], [1, 1, 0], [1, 0, 0]]"
  by code_simp

lemma ProjectiveSpace_3_3:
  "ProjectiveSpace 3 (Suc (Suc (Suc 0)))
     = [[0, 0, 1], [0, 1, 1], [0, 2, 1], [1, 0, 1], [1, 1, 1], [1, 2, 1],
        [2, 0, 1], [2, 1, 1], [2, 2, 1], [0, 1, 0], [1, 1, 0], [2, 1, 0], [1, 0, 0]]"
  by code_simp

text \<open>
  When \<open>p\<close> is not a prime there is no field for the tuples: with \<open>sieve\<close> disabled
  and a list that is not empty, \<open>GF(p)\<close> raises before any combination is tested, and
  the store is as it was.
\<close>

lemma exhaustive_search_no_field:
  assumes "\<not> is_prime p" and "Plist \<noteq> []"
  shows "p_saturation S fuel Plist p False lin_combs h = Some (Inl ValueError, h)"
proof -
  have "p \<noteq> 2" using assms(1) by (auto simp: is_prime_def)
  then have "p_saturation S fuel Plist p False lin_combs h
          = Some (exhaustive_search S Plist p lin_combs h)"
    using assms(2) by (auto simp: p_saturation_def)
  then show ?thesis
    using assms(1) by (simp add: exhaustive_search_not_prime)
qed

text \<open>
  Claim C6. With \<open>sieve\<close> disabled, a prime \<open>p\<close>, a list of \<open>n \<ge> 1\<close> points that is
  not the special case \<open>n = 1\<close>, \<open>p = 2\<close>, and a dict whose entries are combinations of
  the points (an empty dict for one):
  \<^item> the tuples enumerated are the tuples of length \<open>n\<close> with entries in \<open>0..p-1\<close>
    whose last nonzero entry is \<open>1\<close>, each of them once, which makes
    \<open>(p^n - 1) / (p - 1)\<close> tuples;
  \<^item> the table of every point but the last holds its multiples \<open>0..p-1\<close>, the table of
    the last point the multiples \<open>0\<close> and \<open>1\<close>, and for every enumerated tuple the sum
    of the table entries is the linear combination of the points, without any subscript
    out of range;
  \<^item> the result is \<open>(False, i, D)\<close> for the first enumerated tuple \<open>w\<close> whose
    combination has a division point by \<open>p\<close>, with \<open>i\<close> the first position of a
    \<open>1\<close> in \<open>w\<close> and \<open>D\<close> the first division point, and it is \<open>(True, lin_combs)\<close>
    when no enumerated combination has one;
  \<^item> every enumerated tuple has a \<open>1\<close> at that position \<open>i < n\<close>.
\<close>

theorem exhaustive_search_result:
  fixes S :: "('pt::ab_group_add, 'r, 'g, 'f) services"
  assumes "is_prime p" and "Plist \<noteq> []" and "\<not> (length Plist = 1 \<and> p = 2)"
    and "cache_valid Plist (dict_at h lin_combs)"
  shows "(\<forall>w. w \<in> set (ProjectiveSpace p (length Plist)) \<longleftrightarrow>
            length w = length Plist \<and> set w \<subseteq> {..<p}
            \<and> (\<exists>i<length Plist. w ! i = 1 \<and> (\<forall>j<length Plist. i < j \<longrightarrow> w ! j = 0)))
       \<and> distinct (ProjectiveSpace p (length Plist))
       \<and> length (ProjectiveSpace p (length Plist)) * (p - 1) + 1 = p ^ length Plist
       \<and> (\<forall>i<length Plist. mults_tables Plist p ! i
             = map (\<lambda>k. nmult k (Plist ! i)) [0..<(if Suc i = length Plist then 2 else p)])
       \<and> (\<forall>w\<in>set (ProjectiveSpace p (length Plist)).
             table_sum (mults_tables Plist p) w = Inr (combination Plist w))
       \<and> map_option fst (p_saturation S fuel Plist p False lin_combs h)
           = Some (case List.find (\<lambda>w. division_points S (combination Plist w) p \<noteq> [])
                         (ProjectiveSpace p (length Plist)) of
                     None \<Rightarrow> Inr (Saturated lin_combs)
                   | Some w \<Rightarrow> Inr (NotSaturated (first_position 1 w)
                                     (hd (division_points S (combination Plist w) p))))
       \<and> (\<forall>w\<in>set (ProjectiveSpace p (length Plist)).
             first_position 1 w < length Plist \<and> w ! first_position 1 w = 1)"
proof (intro conjI allI ballI impI)
  have p: "2 \<le> p" using assms(1) by (simp add: is_prime_def)
  fix w
  show "w \<in> set (ProjectiveSpace p (length Plist)) \<longleftrightarrow>
            length w = length Plist \<and> set w \<subseteq> {..<p}
            \<and> (\<exists>i<length Plist. w ! i = 1 \<and> (\<forall>j<length Plist. i < j \<longrightarrow> w ! j = 0))"
    using p by (rule ProjectiveSpace_normalised)
next
  show "distinct (ProjectiveSpace p (length Plist))"
    by (rule ProjectiveSpace_distinct)
next
  have "0 < p" using assms(1) by (simp add: is_prime_def)
  then show "length (ProjectiveSpace p (length Plist)) * (p - 1) + 1 = p ^ length Plist"
    by (rule ProjectiveSpace_count)
next
  fix i assume "i < length Plist"
  then show "mults_tables Plist p ! i
             = map (\<lambda>k. nmult k (Plist ! i)) [0..<(if Suc i = length Plist then 2 else p)]"
    by (rule mults_tables_nth)
next
  have p: "2 \<le> p" using assms(1) by (simp add: is_prime_def)
  fix w assume "w \<in> set (ProjectiveSpace p (length Plist))"
  then show "table_sum (mults_tables Plist p) w = Inr (combination Plist w)"
    using p assms(2) by (rule ProjectiveSpace_table_sum)
next
  have "p_saturation S fuel Plist p False lin_combs h
          = Some (exhaustive_search S Plist p lin_combs h)"
    using assms(2,3) by (auto simp: p_saturation_def)
  then show "map_option fst (p_saturation S fuel Plist p False lin_combs h)
           = Some (case List.find (\<lambda>w. division_points S (combination Plist w) p \<noteq> [])
                         (ProjectiveSpace p (length Plist)) of
                     None \<Rightarrow> Inr (Saturated lin_combs)
                   | Some w \<Rightarrow> Inr (NotSaturated (first_position 1 w)
                                     (hd (division_points S (combination Plist w) p))))"
    using exhaustive_search_verdict [OF assms(4) assms(1) assms(2), of S] by simp
next
  fix w assume "w \<in> set (ProjectiveSpace p (length Plist))"
  then have "1 \<in> set w" "length w = length Plist"
    using ProjectiveSpace_has_one ProjectiveSpace_length by blast+
  then show "first_position 1 w < length Plist" "w ! first_position 1 w = 1"
    using first_position_nth [of 1 w] by simp_all
qed

lemma ProjectiveSpace_3_2:
  "ProjectiveSpace 3 (Suc (Suc 0)) = [[0, 1], [1, 1], [2, 1], [1, 0]]"
  by code_simp

text \<open>
  Over the integers with \<open>p = 3\<close> and an empty dict. For the points \<open>1\<close> and \<open>3\<close> the
  first tuple \<open>(0, 1)\<close> gives the combination \<open>3\<close>, which is \<open>3\<close> times \<open>1\<close>: the
  result is \<open>(False, 1, 1)\<close>. For the points \<open>1\<close> and \<open>1\<close> the tuple \<open>(2, 1)\<close> is the
  first with a divisible combination, and its \<open>1\<close> is at position \<open>1\<close>. For the single
  point \<open>1\<close> nothing is divisible.

  In rank three with \<open>p = 2\<close>, for the points \<open>P\<close>, \<open>P + 2Q\<close>, \<open>P + 2R\<close>: the
  combinations of the tuples \<open>(0,1,1)\<close>, \<open>(1,0,1)\<close> and \<open>(1,1,0)\<close> are divisible by
  \<open>2\<close>; the first of them in the enumeration is \<open>(0,1,1)\<close>, whose combination
  \<open>2P + 2Q + 2R\<close> is twice \<open>P + Q + R\<close>, and the result is \<open>(False, 1, P + Q + R)\<close>.
\<close>

theorem exhaustive_search_result_witness:
  "map_option fst (p_saturation int_services 0 [1, 3] 3 False p_saturation_default module_heap)
     = Some (Inr (NotSaturated 1 1))
   \<and> map_option fst (p_saturation int_services 0 [1, 1] 3 False p_saturation_default module_heap)
     = Some (Inr (NotSaturated 1 1))
   \<and> map_option fst (p_saturation int_services 0 [1] 3 False p_saturation_default module_heap)
     = Some (Inr (Saturated p_saturation_default))
   \<and> map_option fst (p_saturation lattice_services 0 [(1, 0, 0), (1, 2, 0), (1, 0, 2)] 2 False
                       p_saturation_default module_heap)
     = Some (Inr (NotSaturated 1 (1, 1, 1)))"
proof -
  have empty: "cache_valid Ps (dict_at module_heap p_saturation_default)" for Ps :: "int list"
    by (simp add: cache_valid_def module_heap_def)
  have empty3: "cache_valid Ps (dict_at module_heap p_saturation_default)"
    for Ps :: "(int \<times> int \<times> int) list"
    by (simp add: cache_valid_def module_heap_def)
  note pick = conjunct2 [THEN conjunct2, THEN conjunct2, THEN conjunct2, THEN conjunct2,
                          THEN conjunct1]
  let ?Ps = "[(1, 0, 0), (1, 2, 0), (1, 0, 2)] :: (int \<times> int \<times> int) list"
  have "map_option fst (p_saturation lattice_services 0 ?Ps 2 False p_saturation_default module_heap)
     = Some (case List.find (\<lambda>w. division_points lattice_services (combination ?Ps w) 2 \<noteq> [])
                         (ProjectiveSpace 2 (length ?Ps)) of
                     None \<Rightarrow> Inr (Saturated p_saturation_default)
                   | Some w \<Rightarrow> Inr (NotSaturated (first_position 1 w)
                                     (hd (division_points lattice_services (combination ?Ps w) 2))))"
    by (rule exhaustive_search_result [THEN pick]) (simp_all add: empty3 is_prime_2)
  also have "\<dots> = Some (Inr (NotSaturated 1 (1, 1, 1)))"
    by (simp add: ProjectiveSpace_2_3 combination_def first_position_def lattice_services_def)
  finally have d: "map_option fst
      (p_saturation lattice_services 0 ?Ps 2 False p_saturation_default module_heap)
     = Some (Inr (NotSaturated 1 (1, 1, 1)))" .
  have "map_option fst (p_saturation int_services 0 [1, 3] 3 False p_saturation_default module_heap)
     = Some (case List.find (\<lambda>w. division_points int_services (combination [1, 3] w) 3 \<noteq> [])
                         (ProjectiveSpace 3 (length [1, 3 :: int])) of
                     None \<Rightarrow> Inr (Saturated p_saturation_default)
                   | Some w \<Rightarrow> Inr (NotSaturated (first_position 1 w)
                                     (hd (division_points int_services (combination [1, 3] w) 3))))"
    by (rule exhaustive_search_result [THEN pick]) (simp_all add: empty is_prime_3)
  also have "\<dots> = Some (Inr (NotSaturated 1 1))"
    by (simp add: ProjectiveSpace_3_2 combination_def first_position_def)
  finally have a: "map_option fst
      (p_saturation int_services 0 [1, 3] 3 False p_saturation_default module_heap)
     = Some (Inr (NotSaturated 1 1))" .
  have "map_option fst (p_saturation int_services 0 [1, 1] 3 False p_saturation_default module_heap)
     = Some (case List.find (\<lambda>w. division_points int_services (combination [1, 1] w) 3 \<noteq> [])
                         (ProjectiveSpace 3 (length [1, 1 :: int])) of
                     None \<Rightarrow> Inr (Saturated p_saturation_default)
                   | Some w \<Rightarrow> Inr (NotSaturated (first_position 1 w)
                                     (hd (division_points int_services (combination [1, 1] w) 3))))"
    by (rule exhaustive_search_result [THEN pick]) (simp_all add: empty is_prime_3)
  also have "\<dots> = Some (Inr (NotSaturated 1 1))"
    by (simp add: ProjectiveSpace_3_2 combination_def first_position_def numeral_2_eq_2)
  finally have b: "map_option fst
      (p_saturation int_services 0 [1, 1] 3 False p_saturation_default module_heap)
     = Some (Inr (NotSaturated 1 1))" .
  have "map_option fst (p_saturation int_services 0 [1] 3 False p_saturation_default module_heap)
     = Some (case List.find (\<lambda>w. division_points int_services (combination [1] w) 3 \<noteq> [])
                         (ProjectiveSpace 3 (length [1 :: int])) of
                     None \<Rightarrow> Inr (Saturated p_saturation_default)
                   | Some w \<Rightarrow> Inr (NotSaturated (first_position 1 w)
                                     (hd (division_points int_services (combination [1] w) 3))))"
    by (rule exhaustive_search_result [THEN pick]) (simp_all add: empty is_prime_3)
  also have "\<dots> = Some (Inr (Saturated p_saturation_default))"
    by (simp add: ProjectiveSpace_one combination_def)
  finally have c: "map_option fst
      (p_saturation int_services 0 [1] 3 False p_saturation_default module_heap)
     = Some (Inr (Saturated p_saturation_default))" .
  from a b c d show ?thesis by simp
qed


subsection \<open>The sieve falls back on the kernel\<close>

lemma tuple_index_less: "tuple_index w x = Inr i \<Longrightarrow> i < length w"
  by (induction w arbitrary: i) (auto split: if_splits sum.splits)

lemma exhaustive_loop_index:
  "exhaustive_loop S mults p lc ws h = (Inr (NotSaturated k R), h')
   \<Longrightarrow> \<exists>w\<in>set ws. k < length w"
proof (induction ws arbitrary: h)
  case Nil
  then show ?case by simp
next
  case (Cons w ws)
  obtain r1 h1 where l: "lookup_or_compute mults lc w h = (r1, h1)"
    by (cases "lookup_or_compute mults lc w h")
  show ?case
  proof (cases r1)
    case (Inl e)
    with Cons.prems l show ?thesis by simp
  next
    case (Inr P)
    show ?thesis
    proof (cases "division_points S P p \<noteq> []")
      case True
      with Cons.prems l Inr have "tuple_index w 1 = Inr k"
        by (auto split: sum.splits)
      then show ?thesis using tuple_index_less by fastforce
    next
      case False
      with Cons.prems l Inr have "exhaustive_loop S mults p lc ws h1 = (Inr (NotSaturated k R), h')"
        by simp
      from Cons.IH [OF this] show ?thesis by auto
    qed
  qed
qed

lemma p_saturation_False_index:
  assumes "p_saturation_False S Plist p d h = (Inr (NotSaturated k R), h')"
  shows "k < length Plist"
proof (cases "length Plist = 0 \<or> (length Plist = 1 \<and> p = 2)")
  case True
  with assms show ?thesis
    by (auto simp: p_saturation_False_def single_point_2_def Let_def split: list.splits if_splits)
next
  case False
  with assms have search: "exhaustive_search S Plist p d h = (Inr (NotSaturated k R), h')"
    by (auto simp: p_saturation_False_def)
  then have "is_prime p"
    using exhaustive_search_not_prime [of p S Plist d h] by auto
  with search have "exhaustive_loop S (mults_tables Plist p) p d
      (ProjectiveSpace p (length Plist)) h = (Inr (NotSaturated k R), h')"
    by (simp add: exhaustive_search_prime)
  from exhaustive_loop_index [OF this] show ?thesis
    by (auto simp: ProjectiveSpace_length)
qed

lemma first_nonzero_iff:
  "first_nonzero v = Inr j \<longleftrightarrow> j < length v \<and> v ! j \<noteq> 0 \<and> (\<forall>i<j. v ! i = 0)"
proof (induction v arbitrary: j)
  case Nil
  then show ?case by simp
next
  case (Cons x v)
  show ?case
  proof (cases "x = 0")
    case False
    then show ?thesis by (cases j) auto
  next
    case True
    show ?thesis
    proof (cases j)
      case 0
      with True show ?thesis by (auto split: sum.splits)
    next
      case (Suc j')
      have "(\<forall>i<Suc j'. (x # v) ! i = 0) \<longleftrightarrow> (\<forall>i<j'. v ! i = 0)"
        using True by (auto simp: nth_Cons' less_Suc_eq_0_disj)
      with True Suc Cons.IH [of j'] show ?thesis
        by (auto split: sum.splits)
    qed
  qed
qed

lemma kernel_check_result:
  fixes S :: "('pt::ab_group_add, 'r, 'g, 'f) services"
  assumes "p_saturation_False S (map (combination Plist) (right_kernel_basis S p (length Plist) A'))
             p (fresh h) (snd (new_dict h)) = (r, h')"
  shows "kernel_check S Plist p lin_combs A' h =
     (case r of
        Inl e \<Rightarrow> (Inl e, h')
      | Inr (Saturated _) \<Rightarrow> (Inr (Saturated lin_combs), h')
      | Inr (NotSaturated k R) \<Rightarrow>
          (case first_nonzero (right_kernel_basis S p (length Plist) A' ! k) of
             Inl e \<Rightarrow> (Inl e, h')
           | Inr j \<Rightarrow> (Inr (NotSaturated j R), h')))"
proof -
  have d: "fst (new_dict h) = fresh h" by (simp add: new_dict_def)
  show ?thesis
  proof (cases r)
    case (Inl e)
    with assms d show ?thesis by (simp add: kernel_check_def Let_def case_prod_beta)
  next
    case (Inr v)
    show ?thesis
    proof (cases v)
      case (Saturated x)
      with assms d Inr show ?thesis by (simp add: kernel_check_def Let_def case_prod_beta)
    next
      case (NotSaturated k R)
      with assms Inr have "k < length (map (combination Plist) (right_kernel_basis S p (length Plist) A'))"
        using p_saturation_False_index by blast
      with assms d Inr NotSaturated show ?thesis
        by (simp add: kernel_check_def Let_def case_prod_beta split: sum.splits)
    qed
  qed
qed

lemma sieve_stagnation_step:
  fixes S :: "('pt::ab_group_add, 'r, 'g, 'f) services"
  assumes card: "p dvd reduced_cardinality S q amodq"
    and vecs: "fst (projections_with_retry (reduced_group S q amodq)
                     (map (reduce_point S q amodq) Plist) p) = Inr vecs"
    and A': "A' = A st @ vecs"
    and same: "rank_Fp S p A' = rankA st"
    and notfull: "rank_Fp S p A' \<noteq> length Plist"
    and K: "K = right_kernel_basis S p (length Plist) A'"
    and Rlist: "Rlist = map (combination Plist) K"
  shows
    "(count st + 1 \<noteq> 10 \<longrightarrow>
        sieve_body S Plist p lin_combs q amodq st h
          = (Inr (Continue (st\<lparr>A := A', count := count st + 1\<rparr>)), h))
     \<and> (count st + 1 = 10 \<longrightarrow>
          dict_at (snd (new_dict h)) (fresh h) = Map.empty
          \<and> (\<forall>d' h'. p_saturation S fuel Rlist p False (fresh h) (snd (new_dict h))
                        = Some (Inr (Saturated d'), h')
                \<longrightarrow> sieve_body S Plist p lin_combs q amodq st h
                      = (Inr (Return (Saturated lin_combs)), h'))
          \<and> (\<forall>k R h'. p_saturation S fuel Rlist p False (fresh h) (snd (new_dict h))
                        = Some (Inr (NotSaturated k R), h')
                \<longrightarrow> k < length K
                    \<and> (\<forall>j. j < length (K ! k) \<and> K ! k ! j \<noteq> 0 \<and> (\<forall>i<j. K ! k ! i = 0)
                          \<longrightarrow> sieve_body S Plist p lin_combs q amodq st h
                                = (Inr (Return (NotSaturated j R)), h')))
          \<and> (\<forall>e h'. p_saturation S fuel Rlist p False (fresh h) (snd (new_dict h))
                        = Some (Inl e, h')
                \<longrightarrow> sieve_body S Plist p lin_combs q amodq st h = (Inl e, h')))"
proof (intro conjI impI allI)
  assume "count st + 1 \<noteq> 10"
  then show "sieve_body S Plist p lin_combs q amodq st h
          = (Inr (Continue (st\<lparr>A := A', count := count st + 1\<rparr>)), h)"
    using card vecs A' same notfull by (simp add: sieve_body_def Let_def)
next
  show "dict_at (snd (new_dict h)) (fresh h) = Map.empty"
    by (simp add: new_dict_def)
next
  assume ten: "count st + 1 = 10"
  have body: "sieve_body S Plist p lin_combs q amodq st h =
      (case kernel_check S Plist p lin_combs A' h of
         (Inl e, h') \<Rightarrow> (Inl e, h')
       | (Inr v, h') \<Rightarrow> (Inr (Return v), h'))"
    using card vecs A' same notfull ten by (simp add: sieve_body_def Let_def)
  note sub = p_saturation_False_eq [of S fuel Rlist p "fresh h" "snd (new_dict h)"]
  {
    fix d' h'
    assume "p_saturation S fuel Rlist p False (fresh h) (snd (new_dict h))
              = Some (Inr (Saturated d'), h')"
    with sub have "p_saturation_False S Rlist p (fresh h) (snd (new_dict h))
              = (Inr (Saturated d'), h')" by simp
    from kernel_check_result [OF this [unfolded Rlist K], of lin_combs]
    show "sieve_body S Plist p lin_combs q amodq st h = (Inr (Return (Saturated lin_combs)), h')"
      by (simp add: body)
  next
    fix e h'
    assume "p_saturation S fuel Rlist p False (fresh h) (snd (new_dict h)) = Some (Inl e, h')"
    with sub have "p_saturation_False S Rlist p (fresh h) (snd (new_dict h)) = (Inl e, h')"
      by simp
    from kernel_check_result [OF this [unfolded Rlist K], of lin_combs]
    show "sieve_body S Plist p lin_combs q amodq st h = (Inl e, h')"
      by (simp add: body)
  next
    fix k R h'
    assume "p_saturation S fuel Rlist p False (fresh h) (snd (new_dict h))
              = Some (Inr (NotSaturated k R), h')"
    with sub have run: "p_saturation_False S Rlist p (fresh h) (snd (new_dict h))
              = (Inr (NotSaturated k R), h')" by simp
    from p_saturation_False_index [OF run] show "k < length K"
      by (simp add: Rlist)
    fix j
    assume "j < length (K ! k) \<and> K ! k ! j \<noteq> 0 \<and> (\<forall>i<j. K ! k ! i = 0)"
    then have "first_nonzero (K ! k) = Inr j"
      by (simp add: first_nonzero_iff)
    with kernel_check_result [OF run [unfolded Rlist K], of lin_combs]
    show "sieve_body S Plist p lin_combs q amodq st h = (Inr (Return (NotSaturated j R)), h')"
      by (simp add: body K)
  }
qed

text \<open>
  Claim C5. Take a reduction that passes the torsion test and gives the vectors
  \<open>vecs\<close>, so that the matrix becomes \<open>A'\<close>. If the rank of \<open>A'\<close> is \<open>n\<close> the
  sieve reports saturation. If it is neither \<open>n\<close> nor the old rank, the loop goes on
  with \<open>count = 0\<close>. If it is the old rank and not \<open>n\<close>, \<open>count\<close> goes up by one, so
  that \<open>count\<close> is the number of such steps in a row; below ten the loop goes on. At
  ten the kernel basis \<open>K\<close> of \<open>A'\<close> is taken, the points \<open>Rlist\<close> are the
  combinations of \<open>Plist\<close> with the vectors of \<open>K\<close>, and \<open>p_saturation\<close> runs on
  \<open>Rlist\<close> with \<open>sieve=False\<close> and a dict that is new and empty. If that call
  reports saturation, so does the sieve, with its own \<open>lin_combs\<close>. If it reports
  \<open>(False, k, R)\<close> then \<open>k\<close> is a position of \<open>K\<close> and the sieve returns
  \<open>(False, j, R)\<close>, where \<open>j\<close> is the position of the first nonzero entry of the
  \<open>k\<close>-th kernel vector. An exception of the call is passed on.
\<close>

theorem sieve_stagnation_kernel_check:
  fixes S :: "('pt::ab_group_add, 'r, 'g, 'f) services"
  assumes card: "p dvd reduced_cardinality S q amodq"
    and vecs: "fst (projections_with_retry (reduced_group S q amodq)
                     (map (reduce_point S q amodq) Plist) p) = Inr vecs"
    and A': "A' = A st @ vecs"
    and K: "K = right_kernel_basis S p (length Plist) A'"
    and Rlist: "Rlist = map (combination Plist) K"
  shows
    "(rank_Fp S p A' = length Plist \<longrightarrow>
        sieve_body S Plist p lin_combs q amodq st h = (Inr (Return (Saturated lin_combs)), h))
     \<and> (rank_Fp S p A' \<noteq> length Plist \<and> rank_Fp S p A' \<noteq> rankA st \<longrightarrow>
        sieve_body S Plist p lin_combs q amodq st h
          = (Inr (Continue (st\<lparr>A := A', rankA := rank_Fp S p A', count := 0\<rparr>)), h))
     \<and> (rank_Fp S p A' \<noteq> length Plist \<and> rank_Fp S p A' = rankA st \<longrightarrow>
        (count st + 1 \<noteq> 10 \<longrightarrow>
           sieve_body S Plist p lin_combs q amodq st h
             = (Inr (Continue (st\<lparr>A := A', count := count st + 1\<rparr>)), h))
        \<and> (count st + 1 = 10 \<longrightarrow>
             dict_at (snd (new_dict h)) (fresh h) = Map.empty
             \<and> (\<forall>d' h'. p_saturation S fuel Rlist p False (fresh h) (snd (new_dict h))
                           = Some (Inr (Saturated d'), h')
                   \<longrightarrow> sieve_body S Plist p lin_combs q amodq st h
                         = (Inr (Return (Saturated lin_combs)), h'))
             \<and> (\<forall>k R h'. p_saturation S fuel Rlist p False (fresh h) (snd (new_dict h))
                           = Some (Inr (NotSaturated k R), h')
                   \<longrightarrow> k < length K
                       \<and> (\<forall>j. j < length (K ! k) \<and> K ! k ! j \<noteq> 0 \<and> (\<forall>i<j. K ! k ! i = 0)
                             \<longrightarrow> sieve_body S Plist p lin_combs q amodq st h
                                   = (Inr (Return (NotSaturated j R)), h')))
             \<and> (\<forall>e h'. p_saturation S fuel Rlist p False (fresh h) (snd (new_dict h))
                           = Some (Inl e, h')
                   \<longrightarrow> sieve_body S Plist p lin_combs q amodq st h = (Inl e, h'))))"
proof (intro conjI)
  show "rank_Fp S p A' = length Plist \<longrightarrow>
        sieve_body S Plist p lin_combs q amodq st h = (Inr (Return (Saturated lin_combs)), h)"
    using card vecs A' by (simp add: sieve_body_def Let_def)
  show "rank_Fp S p A' \<noteq> length Plist \<and> rank_Fp S p A' \<noteq> rankA st \<longrightarrow>
        sieve_body S Plist p lin_combs q amodq st h
          = (Inr (Continue (st\<lparr>A := A', rankA := rank_Fp S p A', count := 0\<rparr>)), h)"
    using card vecs A' by (simp add: sieve_body_def Let_def)
  show "rank_Fp S p A' \<noteq> length Plist \<and> rank_Fp S p A' = rankA st \<longrightarrow>
        (count st + 1 \<noteq> 10 \<longrightarrow>
           sieve_body S Plist p lin_combs q amodq st h
             = (Inr (Continue (st\<lparr>A := A', count := count st + 1\<rparr>)), h))
        \<and> (count st + 1 = 10 \<longrightarrow>
             dict_at (snd (new_dict h)) (fresh h) = Map.empty
             \<and> (\<forall>d' h'. p_saturation S fuel Rlist p False (fresh h) (snd (new_dict h))
                           = Some (Inr (Saturated d'), h')
                   \<longrightarrow> sieve_body S Plist p lin_combs q amodq st h
                         = (Inr (Return (Saturated lin_combs)), h'))
             \<and> (\<forall>k R h'. p_saturation S fuel Rlist p False (fresh h) (snd (new_dict h))
                           = Some (Inr (NotSaturated k R), h')
                   \<longrightarrow> k < length K
                       \<and> (\<forall>j. j < length (K ! k) \<and> K ! k ! j \<noteq> 0 \<and> (\<forall>i<j. K ! k ! i = 0)
                             \<longrightarrow> sieve_body S Plist p lin_combs q amodq st h
                                   = (Inr (Return (NotSaturated j R)), h')))
             \<and> (\<forall>e h'. p_saturation S fuel Rlist p False (fresh h) (snd (new_dict h))
                           = Some (Inl e, h')
                   \<longrightarrow> sieve_body S Plist p lin_combs q amodq st h = (Inl e, h')))"
  proof
    assume r: "rank_Fp S p A' \<noteq> length Plist \<and> rank_Fp S p A' = rankA st"
    then have same: "rank_Fp S p A' = rankA st" and notfull: "rank_Fp S p A' \<noteq> length Plist"
      by simp_all
    show "(count st + 1 \<noteq> 10 \<longrightarrow>
           sieve_body S Plist p lin_combs q amodq st h
             = (Inr (Continue (st\<lparr>A := A', count := count st + 1\<rparr>)), h))
        \<and> (count st + 1 = 10 \<longrightarrow>
             dict_at (snd (new_dict h)) (fresh h) = Map.empty
             \<and> (\<forall>d' h'. p_saturation S fuel Rlist p False (fresh h) (snd (new_dict h))
                           = Some (Inr (Saturated d'), h')
                   \<longrightarrow> sieve_body S Plist p lin_combs q amodq st h
                         = (Inr (Return (Saturated lin_combs)), h'))
             \<and> (\<forall>k R h'. p_saturation S fuel Rlist p False (fresh h) (snd (new_dict h))
                           = Some (Inr (NotSaturated k R), h')
                   \<longrightarrow> k < length K
                       \<and> (\<forall>j. j < length (K ! k) \<and> K ! k ! j \<noteq> 0 \<and> (\<forall>i<j. K ! k ! i = 0)
                             \<longrightarrow> sieve_body S Plist p lin_combs q amodq st h
                                   = (Inr (Return (NotSaturated j R)), h')))
             \<and> (\<forall>e h'. p_saturation S fuel Rlist p False (fresh h) (snd (new_dict h))
                           = Some (Inl e, h')
                   \<longrightarrow> sieve_body S Plist p lin_combs q amodq st h = (Inl e, h')))"
      by (rule sieve_stagnation_step [OF card vecs A' same notfull K Rlist])
  qed
qed

lemma cyclic9_projection_3: "p_projections cyclic9 [3] 3 False = Inr [[0]]"
  by code_simp

text \<open>
  Over the integers with \<open>p = 3\<close> and the point \<open>3\<close>, reduced into the cyclic group of
  order nine at every prime: every reduction gives the vector \<open>(0)\<close> and the rank stays
  \<open>0\<close>. After nine such steps the tenth one finds the kernel vector \<open>(1)\<close>, the point
  \<open>3\<close> is tested by the exhaustive search with the new dict at address \<open>2\<close>, and its
  answer \<open>(False, 0, 1)\<close> is returned for position \<open>0\<close>; at the first step the loop
  goes on with \<open>count = 1\<close>. The whole run from the prime \<open>2\<close> to the prime \<open>29\<close>
  gives \<open>(False, 0, 1)\<close>.
\<close>

theorem sieve_stagnation_kernel_check_witness:
  "sieve_body (reduced_services cyclic9 (\<lambda>k. nat (k mod 9))) [3] 3 0 2 ()
       \<lparr>A = replicate 9 [0], rankA = 0, count = 9\<rparr> module_heap
     = (Inr (Return (NotSaturated 0 1)), dict_store 2 [1] 3 (snd (new_dict module_heap)))
   \<and> sieve_body (reduced_services cyclic9 (\<lambda>k. nat (k mod 9))) [3] 3 0 2 ()
       \<lparr>A = [], rankA = 0, count = 0\<rparr> module_heap
     = (Inr (Continue \<lparr>A = [[0]], rankA = 0, count = 1\<rparr>), module_heap)
   \<and> map_option fst (p_saturation (reduced_services cyclic9 (\<lambda>k. nat (k mod 9))) 28 [3] 3 True 0
        module_heap) = Some (Inr (NotSaturated 0 1))"
proof -
  let ?S = "reduced_services cyclic9 (\<lambda>k. nat (k mod 9))"
  let ?st = "\<lparr>A = replicate 9 [0], rankA = 0, count = 9\<rparr>"
  let ?ini = "\<lparr>A = [], rankA = 0, count = 0\<rparr>"
  have card: "3 dvd reduced_cardinality ?S 2 ()"
    by (simp add: reduced_services_def cyclic9_def)
  have vecs: "fst (projections_with_retry (reduced_group ?S 2 ()) (map (reduce_point ?S 2 ()) [3]) 3)
      = Inr [[0]]"
    by (simp add: reduced_services_def projections_with_retry_def cyclic9_projection_3)
  have rk: "rank_Fp ?S 3 (A ?st @ [[0]]) = rankA ?st" "rank_Fp ?S 3 (A ?st @ [[0]]) \<noteq> length [3::int]"
    "rank_Fp ?S 3 (A ?ini @ [[0]]) = rankA ?ini" "rank_Fp ?S 3 (A ?ini @ [[0]]) \<noteq> length [3::int]"
    by (simp_all add: reduced_services_def column_rank_def list_ex_iff)
  have K: "[[1]] = right_kernel_basis ?S 3 (length [3::int]) (A ?st @ [[0]])"
    by (simp add: reduced_services_def column_kernel_def column_rank_def list_ex_iff)
  have R: "[3::int] = map (combination [3]) [[1]]"
    by (simp add: combination_def)
  have fr: "fresh (module_heap :: int heap) = 2" by (simp add: module_heap_def)
  have sub: "p_saturation ?S 0 [3] 3 False (fresh (module_heap :: int heap)) (snd (new_dict module_heap))
      = Some (Inr (NotSaturated 0 1), dict_store 2 [1] 3 (snd (new_dict module_heap)))"
    by (simp add: p_saturation_def exhaustive_single [OF is_prime_3] fr)
       (simp add: reduced_services_def new_dict_def module_heap_def)
  have pos: "0 < length ([[1]] ! 0 :: nat list) \<and> ([[1]] ! 0 ! 0 :: nat) \<noteq> 0
      \<and> (\<forall>i<0. ([[1]] ! 0 ! i :: nat) = 0)"
    by simp
  have ten: "count ?st + 1 = 10" by simp
  have a: "sieve_body ?S [3] 3 0 2 () ?st module_heap
     = (Inr (Return (NotSaturated 0 1)), dict_store 2 [1] 3 (snd (new_dict module_heap)))"
    using sieve_stagnation_kernel_check
      [OF card vecs refl K R, where lin_combs = 0 and h = module_heap and fuel = 0]
      rk(1) rk(2) ten sub pos
    by blast
  have one: "count ?ini + 1 \<noteq> 10" by simp
  have "sieve_body ?S [3] 3 0 2 () ?ini module_heap
     = (Inr (Continue (?ini\<lparr>A := A ?ini @ [[0]], count := count ?ini + 1\<rparr>)), module_heap)"
    using sieve_stagnation_kernel_check
      [OF card vecs refl refl refl, where lin_combs = 0 and h = module_heap and fuel = 0]
      rk(3) rk(4) one
    by blast
  then have b: "sieve_body ?S [3] 3 0 2 () ?ini module_heap
     = (Inr (Continue \<lparr>A = [[0]], rankA = 0, count = 1\<rparr>), module_heap)"
    by simp
  have c: "map_option fst (p_saturation ?S 28 [3] 3 True 0 module_heap)
      = Some (Inr (NotSaturated 0 1))"
    by code_simp
  from a b c show ?thesis by simp
qed


subsection \<open>What the sieve does to the store\<close>

lemma heap_kept_refl: "heap_kept h h"
  by (simp add: heap_kept_def)

lemma heap_kept_trans: "heap_kept h1 h2 \<Longrightarrow> heap_kept h2 h3 \<Longrightarrow> heap_kept h1 h3"
  by (auto simp: heap_kept_def)

lemma p_saturation_False_frame:
  assumes "p_saturation_False S Plist p d h = (r, h')"
  shows "list_at h' = list_at h \<and> fresh h' = fresh h
         \<and> (\<forall>d'. d' \<noteq> d \<longrightarrow> dict_at h' d' = dict_at h d')
         \<and> (\<forall>x. r = Inr (Saturated x) \<longrightarrow> x = d)"
proof (cases "length Plist = 0 \<or> (length Plist = 1 \<and> p = 2)")
  case True
  with assms show ?thesis
    by (auto simp: p_saturation_False_def single_point_2_def Let_def split: list.splits if_splits)
next
  case False
  with assms have search: "exhaustive_search S Plist p d h = (r, h')"
    by (auto simp: p_saturation_False_def)
  show ?thesis
  proof (cases "is_prime p")
    case True
    with search have "exhaustive_loop S (mults_tables Plist p) p d
        (ProjectiveSpace p (length Plist)) h = (r, h')"
      by (simp add: exhaustive_search_prime)
    from exhaustive_loop_frame [OF this] show ?thesis by simp
  next
    case False
    with search show ?thesis
      by (auto simp: exhaustive_search_not_prime)
  qed
qed

lemma kernel_check_frame:
  assumes "kernel_check S Plist p lc A' h = (r, h')"
  shows "heap_kept h h' \<and> (\<forall>x. r = Inr (Saturated x) \<longrightarrow> x = lc)"
proof -
  let ?R = "map (combination Plist) (right_kernel_basis S p (length Plist) A')"
  obtain r1 h1 where sub: "p_saturation_False S ?R p (fresh h) (snd (new_dict h)) = (r1, h1)"
    by (cases "p_saturation_False S ?R p (fresh h) (snd (new_dict h))")
  from p_saturation_False_frame [OF sub]
  have "heap_kept h h1"
    by (auto simp: heap_kept_def new_dict_def)
  moreover from kernel_check_result [OF sub, of lc] assms
  have "h' = h1 \<and> (\<forall>x. r = Inr (Saturated x) \<longrightarrow> x = lc)"
    by (auto split: sum.splits verdict.splits)
  ultimately show ?thesis by simp
qed

lemma sieve_body_frame:
  assumes "sieve_body S Plist p lc q amodq st h = (r, h')"
  shows "heap_kept h h' \<and> (\<forall>x. r = Inr (Return (Saturated x)) \<longrightarrow> x = lc)"
proof -
  have direct: "heap_kept h h' \<and> (\<forall>x. r = Inr (Return (Saturated x)) \<longrightarrow> x = lc)"
    if "h' = h" "\<forall>x. r = Inr (Return (Saturated x)) \<longrightarrow> x = lc"
    using that by (simp add: heap_kept_refl)
  show ?thesis
  proof (cases "\<exists>A'. (case kernel_check S Plist p lc A' h of
                          (Inl e, h') \<Rightarrow> (Inl e, h')
                        | (Inr v, h') \<Rightarrow> (Inr (Return v), h')) = (r, h')")
    case True
    then obtain A' where k: "(case kernel_check S Plist p lc A' h of
                          (Inl e, h') \<Rightarrow> (Inl e, h')
                        | (Inr v, h') \<Rightarrow> (Inr (Return v), h')) = (r, h')" by blast
    obtain r1 h1 where kc: "kernel_check S Plist p lc A' h = (r1, h1)"
      by (cases "kernel_check S Plist p lc A' h")
    from kernel_check_frame [OF kc] k kc show ?thesis
      by (auto split: sum.splits)
  next
    case False
    with assms show ?thesis
      by (intro direct) (auto simp: sieve_body_def Let_def split: if_splits sum.splits)
  qed
qed

lemma sieve_roots_frame:
  "sieve_roots S Plist p lc q roots st h = (r, h')
   \<Longrightarrow> heap_kept h h' \<and> (\<forall>x. r = Inr (Return (Saturated x)) \<longrightarrow> x = lc)"
proof (induction roots arbitrary: st h)
  case Nil
  then show ?case by (auto simp: heap_kept_refl)
next
  case (Cons a roots)
  obtain r1 h1 where b: "sieve_body S Plist p lc q a st h = (r1, h1)"
    by (cases "sieve_body S Plist p lc q a st h")
  note f = sieve_body_frame [OF b]
  show ?case
  proof (cases "\<exists>st'. r1 = Inr (Continue st')")
    case True
    then obtain st' where "r1 = Inr (Continue st')" by blast
    with Cons.prems b have "sieve_roots S Plist p lc q roots st' h1 = (r, h')" by simp
    from Cons.IH [OF this] f show ?thesis
      using heap_kept_trans by blast
  next
    case False
    with Cons.prems b have "r = r1 \<and> h' = h1"
      by (auto split: sum.splits flow.splits)
    with f show ?thesis by simp
  qed
qed

lemma sieve_primes_frame:
  "sieve_primes S Plist p lc fuel q st h = Some (r, h')
   \<Longrightarrow> heap_kept h h' \<and> (\<forall>x. r = Inr (Saturated x) \<longrightarrow> x = lc)"
proof (induction fuel arbitrary: q st h)
  case 0
  then show ?case by simp
next
  case (Suc fuel)
  show ?case
  proof (cases "is_prime q \<and> \<not> skipped S Plist q")
    case False
    with Suc.prems have "sieve_primes S Plist p lc fuel (Suc q) st h = Some (r, h')"
      by auto
    from Suc.IH [OF this] show ?thesis .
  next
    case True
    obtain r1 h1 where b: "sieve_roots S Plist p lc q (roots_mod S q) st h = (r1, h1)"
      by (cases "sieve_roots S Plist p lc q (roots_mod S q) st h")
    note f = sieve_roots_frame [OF b]
    show ?thesis
    proof (cases r1)
      case (Inl e)
      with Suc.prems True b f show ?thesis by auto
    next
      case (Inr fl)
      show ?thesis
      proof (cases fl)
        case (Return v)
        with Suc.prems True b f Inr show ?thesis by auto
      next
        case (Continue st')
        with Suc.prems True b Inr
        have "sieve_primes S Plist p lc fuel (Suc q) st' h1 = Some (r, h')" by simp
        from Suc.IH [OF this] f show ?thesis
          using heap_kept_trans by blast
      qed
    qed
  qed
qed

lemma p_saturation_sieve_frame:
  assumes "p_saturation S fuel Plist p True lc h = Some (r, h')"
  shows "heap_kept h h' \<and> (\<forall>x. r = Inr (Saturated x) \<longrightarrow> x = lc)"
proof (cases "length Plist = 0 \<or> (length Plist = 1 \<and> p = 2)")
  case True
  with assms show ?thesis
    by (auto simp: p_saturation_def single_point_2_def Let_def heap_kept_refl
        split: list.splits if_splits)
next
  case False
  with assms have "sieve_primes S Plist p lc fuel 2 \<lparr>A = [], rankA = 0, count = 0\<rparr> h = Some (r, h')"
    by (auto simp: p_saturation_def)
  from sieve_primes_frame [OF this] show ?thesis .
qed


subsection \<open>The dict of linear combinations during \<open>full_p_saturation\<close>\<close>

lemma torsion_step_apply:
  "torsion_step S p T (Pl, nx, h) =
     (if p dvd torsion_order S T
      then (fresh h, nx + 1, snd (new_list (list_at h Pl @ [T]) h))
      else (Pl, nx, h))"
  by (simp add: torsion_step_def new_list_def)

lemma fold_torsion_step:
  "fold (torsion_step S p) Ts (Pl, nx, h) = (Pl', nx', h')
   \<Longrightarrow> nx' = nx + length (filter (\<lambda>T. p dvd torsion_order S T) Ts)
       \<and> list_at h' Pl' = list_at h Pl @ filter (\<lambda>T. p dvd torsion_order S T) Ts
       \<and> dict_at h' = dict_at h \<and> fresh h \<le> fresh h'
       \<and> (nx' = nx \<longrightarrow> Pl' = Pl \<and> h' = h)
       \<and> (\<forall>l<fresh h. list_at h' l = list_at h l)"
proof (induction Ts arbitrary: Pl nx h)
  case Nil
  then show ?case by simp
next
  case (Cons T Ts)
  show ?case
  proof (cases "p dvd torsion_order S T")
    case False
    with Cons.prems have "fold (torsion_step S p) Ts (Pl, nx, h) = (Pl', nx', h')"
      by (simp add: torsion_step_apply)
    from Cons.IH [OF this] False show ?thesis by simp
  next
    case True
    let ?h = "snd (new_list (list_at h Pl @ [T]) h)"
    from True Cons.prems
    have "fold (torsion_step S p) Ts (fresh h, nx + 1, ?h) = (Pl', nx', h')"
      by (simp add: torsion_step_apply)
    from Cons.IH [OF this] True show ?thesis
      by (auto simp: new_list_def)
  qed
qed

lemma add_torsion_result:
  assumes "add_torsion S p Plist lin_combs h = (Plist1, extra, lc1, h1)"
  shows "extra = length (filter (\<lambda>T. p dvd torsion_order S T) (torsion_gens S))
       \<and> list_at h1 Plist1
           = list_at h Plist @ filter (\<lambda>T. p dvd torsion_order S T) (torsion_gens S)
       \<and> (\<forall>l<fresh h. list_at h1 l = list_at h l)
       \<and> (extra \<noteq> 0 \<longrightarrow> fresh h \<le> lc1 \<and> lc1 < fresh h1 \<and> dict_at h1 lc1 = Map.empty)
       \<and> (extra = 0 \<longrightarrow> lc1 = lin_combs \<and> Plist1 = Plist \<and> h1 = h)"
proof -
  let ?n = "length (list_at h Plist)"
  obtain Pl' nx' h' where f: "fold (torsion_step S p) (torsion_gens S) (Plist, ?n, h) = (Pl', nx', h')"
    by (cases "fold (torsion_step S p) (torsion_gens S) (Plist, ?n, h)")
  note r = fold_torsion_step [OF f]
  show ?thesis
  proof (cases "nx' - ?n = 0")
    case True
    with assms f r show ?thesis
      by (auto simp: add_torsion_def Let_def)
  next
    case False
    with assms f have "Plist1 = Pl'" "extra = nx' - ?n" "lc1 = fresh h'" "h1 = snd (new_dict h')"
      by (auto simp: add_torsion_def Let_def new_dict_def)
    with r False show ?thesis
      by (auto simp: new_dict_def)
  qed
qed

lemma replace_point_result:
  assumes "replace_point Plist i newP e h = Inr (e', h')"
  shows "e' = e + 1 \<and> dict_at h' = dict_at h \<and> fresh h' = fresh h
       \<and> list_at h' = (list_at h)(Plist := (list_at h Plist)[i := newP])"
  using assms by (auto simp: replace_point_def list_store_def split: if_splits)

lemma saturation_loop_cache:
  "saturation_loop S pfuel p Plist lc fuel e res h = Some (Inr (e', res'), h')
   \<Longrightarrow> lc < fresh h \<Longrightarrow> (\<forall>x. res = Saturated x \<longrightarrow> x = lc)
   \<Longrightarrow> res' = Saturated lc \<and> dict_at h' lc = dict_at h lc"
proof (induction S pfuel p Plist lc fuel e res h rule: saturation_loop.induct)
  case (1 S pfuel p Plist lin_combs fuel exponent d h)
  then show ?case by auto
next
  case (2 S pfuel p Plist lin_combs exponent i newP h)
  then show ?case by simp
next
  case (3 S pfuel p Plist lin_combs fuel exponent i newP h)
  from "3.prems"(1) obtain e1 h1 where rp: "replace_point Plist i newP exponent h = Inr (e1, h1)"
    by (auto split: sum.splits)
  note f1 = replace_point_result [OF rp]
  from "3.prems"(1) rp obtain res1 h2
    where ps: "p_saturation S pfuel (list_at h1 Plist) p True lin_combs h1 = Some (Inr res1, h2)"
    by (auto split: option.splits sum.splits)
  from p_saturation_sieve_frame [OF ps]
  have k: "heap_kept h1 h2" and v: "\<forall>x. res1 = Saturated x \<longrightarrow> x = lin_combs"
    by simp_all
  from "3.prems"(1) rp ps
  have rest: "saturation_loop S pfuel p Plist lin_combs fuel e1 res1 h2 = Some (Inr (e', res'), h')"
    by simp
  have lt: "lin_combs < fresh h2" using k f1 "3.prems"(2) by (simp add: heap_kept_def)
  from "3.IH" [OF rp refl ps refl refl rest lt v]
  have "res' = Saturated lin_combs \<and> dict_at h' lin_combs = dict_at h2 lin_combs" .
  moreover have "dict_at h2 lin_combs = dict_at h lin_combs"
    using k f1 "3.prems"(2) by (simp add: heap_kept_def)
  ultimately show ?case by simp
qed

lemma saturate_cache:
  assumes "saturate S pfuel fuel p Plist lc h = Some (Inr (e, res), h')" "lc < fresh h"
  shows "res = Saturated lc \<and> dict_at h' lc = dict_at h lc"
proof -
  from assms(1) obtain res1 h1
    where ps: "p_saturation S pfuel (list_at h Plist) p True lc h = Some (Inr res1, h1)"
      and rest: "saturation_loop S pfuel p Plist lc fuel 0 res1 h1 = Some (Inr (e, res), h')"
    by (auto simp: saturate_def split: option.splits sum.splits)
  from p_saturation_sieve_frame [OF ps]
  have k: "heap_kept h h1" and v: "\<forall>x. res1 = Saturated x \<longrightarrow> x = lc"
    by simp_all
  have "lc < fresh h1" using k assms(2) by (simp add: heap_kept_def)
  from saturation_loop_cache [OF rest this v] k assms(2) show ?thesis
    by (simp add: heap_kept_def)
qed

text \<open>
  Claim C2, as the code has it. The dict is replaced by a new, empty one in exactly one
  place: before the first call of \<open>p_saturation\<close>, when at least one torsion generator
  of order divisible by \<open>p\<close> has been appended; without such a generator the caller's
  dict is kept. The replacement of a point (lines 506 and 507) changes no dict, and the
  sieve changes no dict that existed before it was called. So when the loop is left, the
  dict that the last call of \<open>p_saturation\<close> received and returned is the one the first
  call received, with the same contents: across the replacements it is never reset.
\<close>

theorem cache_reset_with_torsion_only:
  fixes S :: "('pt::ab_group_add, 'r, 'g, 'f) services"
  shows
  "(\<forall>Plist1 extra lc1 h1.
      add_torsion S p Plist lin_combs h = (Plist1, extra, lc1, h1) \<longrightarrow>
        extra = length (filter (\<lambda>T. p dvd torsion_order S T) (torsion_gens S))
        \<and> (extra \<noteq> 0 \<longrightarrow> fresh h \<le> lc1 \<and> lc1 < fresh h1 \<and> dict_at h1 lc1 = Map.empty)
        \<and> (extra = 0 \<longrightarrow> lc1 = lin_combs \<and> h1 = h))
   \<and> (\<forall>i newP e e' h'.
        replace_point Plist i newP e h = Inr (e', h') \<longrightarrow> dict_at h' = dict_at h)
   \<and> (\<forall>R r h'.
        lin_combs < fresh h \<and> p_saturation S pfuel R p True lin_combs h = Some (r, h')
        \<longrightarrow> dict_at h' lin_combs = dict_at h lin_combs)
   \<and> (\<forall>e res h'.
        lin_combs < fresh h \<and> saturate S pfuel fuel p Plist lin_combs h = Some (Inr (e, res), h')
        \<longrightarrow> res = Saturated lin_combs \<and> dict_at h' lin_combs = dict_at h lin_combs)"
proof (intro conjI allI impI)
  fix Plist1 extra lc1 h1
  assume a: "add_torsion S p Plist lin_combs h = (Plist1, extra, lc1, h1)"
  note r = add_torsion_result [OF a]
  from r show "extra = length (filter (\<lambda>T. p dvd torsion_order S T) (torsion_gens S))"
    by simp
  {
    assume "extra \<noteq> 0"
    with r show "fresh h \<le> lc1" "lc1 < fresh h1" "dict_at h1 lc1 = Map.empty"
      by simp_all
  next
    assume "extra = 0"
    with r show "lc1 = lin_combs" "h1 = h" by simp_all
  }
next
  fix i newP e e' h'
  assume "replace_point Plist i newP e h = Inr (e', h')"
  from replace_point_result [OF this] show "dict_at h' = dict_at h" by simp
next
  fix R r h'
  assume "lin_combs < fresh h \<and> p_saturation S pfuel R p True lin_combs h = Some (r, h')"
  then have "lin_combs < fresh h" "heap_kept h h'"
    using p_saturation_sieve_frame by blast+
  then show "dict_at h' lin_combs = dict_at h lin_combs"
    by (simp add: heap_kept_def)
next
  fix e res h'
  assume "lin_combs < fresh h
      \<and> saturate S pfuel fuel p Plist lin_combs h = Some (Inr (e, res), h')"
  then have "res = Saturated lin_combs \<and> dict_at h' lin_combs = dict_at h lin_combs"
    using saturate_cache by blast
  then show "res = Saturated lin_combs" "dict_at h' lin_combs = dict_at h lin_combs"
    by simp_all
qed

lemma caller_heap_simps:
  "list_at caller_heap = (\<lambda>_. [])(2 := [8])"
  "dict_at caller_heap = (\<lambda>_. Map.empty)(3 := [[1] \<mapsto> 8])"
  "fresh caller_heap = 4"
  by (simp_all add: caller_heap_def store_defs)

lemma caller_heap_saturate:
  "saturate int_services 0 3 2 2 3 caller_heap
     = Some (Inr (3, Saturated 3), list_store 2 0 1 (list_store 2 0 2 (list_store 2 0 4 caller_heap)))"
  by (simp add: saturate_def p_saturation_def single_point_2_def replace_point_def
      caller_heap_simps list_store_def numeral_3_eq_3)

text \<open>
  Claim C2 as stated fails. The caller passes the list \<open>[8]\<close> and a dict that holds
  the entry \<open>(1,) \<mapsto> 8\<close>; there is no torsion and \<open>p = 2\<close>. The first call of
  \<open>p_saturation\<close> gives \<open>(False, 0, 4)\<close>; the point is replaced, twice more after
  that, and the fourth call answers \<open>(True, lin_combs)\<close>. The dict it received and
  returned is the caller's dict at address \<open>3\<close>, and it still holds the entry for the
  list \<open>[8]\<close>: it has not been reset to empty after any of the three replacements.
\<close>

theorem cache_kept_across_replacements:
  "map_option (\<lambda>(r, h'). (r, dict_at h' 3 [1], dict_at h' 3 = Map.empty))
     (saturate int_services 0 3 2 2 3 caller_heap)
   = Some (Inr (3, Saturated 3), Some 8, False)"
proof -
  have "dict_at (list_store 2 0 1 (list_store 2 0 2 (list_store 2 0 4 caller_heap))) 3
      = [[1] \<mapsto> 8]"
    by (simp add: list_store_def caller_heap_simps)
  moreover have "[[1::nat] \<mapsto> (8::int)] \<noteq> Map.empty"
    by (metis fun_upd_same option.distinct(1))
  ultimately show ?thesis
    by (simp add: caller_heap_saturate)
qed

text \<open>
  With the torsion point \<open>(0, 1)\<close> of order two and \<open>p = 2\<close>, the list given to the
  sieve is a new object \<open>[(8, 0), (0, 1)]\<close> and the dict is the new, empty object at
  address \<open>4\<close>. Over the integers, without torsion, the run on the caller's store above
  ends with the caller's dict, unchanged.
\<close>

theorem cache_reset_with_torsion_only_witness:
  "add_torsion torsion_services 2 2 full_p_saturation_default (snd (new_list [(8, 0)] module_heap))
     = (3, 1, 4, snd (new_dict (snd (new_list [(8, 0), (0, 1)] (snd (new_list [(8, 0)] module_heap))))))
   \<and> dict_at (snd (new_dict (snd (new_list [(8, 0), (0, 1) :: int \<times> 2]
                                     (snd (new_list [(8, 0)] module_heap))))))
        4 = Map.empty
   \<and> saturate int_services 0 3 2 2 3 caller_heap
     = Some (Inr (3, Saturated 3), list_store 2 0 1 (list_store 2 0 2 (list_store 2 0 4 caller_heap)))
   \<and> dict_at (list_store 2 0 1 (list_store 2 0 2 (list_store 2 0 4 caller_heap))) 3
     = dict_at caller_heap 3"
proof -
  let ?h0 = "snd (new_list [(8, 0)] module_heap) :: (int \<times> 2) heap"
  let ?h1 = "snd (new_dict (snd (new_list [(8, 0), (0, 1)] ?h0)))"
  have ev: "add_torsion torsion_services 2 2 full_p_saturation_default ?h0 = (3, 1, 4, ?h1)"
    by (simp add: add_torsion_def torsion_step_apply torsion_services_def store_defs)
  have "(1::nat) \<noteq> 0" by simp
  with cache_reset_with_torsion_only
    [where S = torsion_services and p = 2 and Plist = 2
       and lin_combs = full_p_saturation_default and h = "?h0"] ev
  have a: "dict_at ?h1 4 = Map.empty" by blast
  have lt: "(3::nat) < fresh caller_heap" by (simp add: caller_heap_simps)
  from cache_reset_with_torsion_only
    [where S = int_services and p = 2 and Plist = 2 and lin_combs = 3 and h = caller_heap
       and pfuel = 0 and fuel = 3] lt caller_heap_saturate
  have b: "dict_at (list_store 2 0 1 (list_store 2 0 2 (list_store 2 0 4 caller_heap))) 3
     = dict_at caller_heap 3" by blast
  from ev a b caller_heap_saturate show ?thesis by simp
qed


subsection \<open>Multiples and linear combinations in the group of points\<close>

lemma nmult_add: "nmult (a + b) P = nmult a P + nmult b P"
  by (induction b) (simp_all add: add.assoc)

lemma nmult_zero_point: "nmult a (0 :: 'pt::ab_group_add) = 0"
  by (induction a) simp_all

lemma nmult_plus: "nmult a (P + Q) = nmult a P + nmult a (Q :: 'pt::ab_group_add)"
  by (induction a) (simp_all add: algebra_simps)

lemma nmult_uminus: "nmult a (- P) = - nmult a (P :: 'pt::ab_group_add)"
  by (induction a) (simp_all add: algebra_simps)

lemma nmult_diff: "nmult a (P - Q) = nmult a P - nmult a (Q :: 'pt::ab_group_add)"
  using nmult_plus [of a P "- Q"] by (simp add: nmult_uminus)

lemma nmult_mult: "nmult (a * b) P = nmult a (nmult b P)"
proof (induction a)
  case 0
  then show ?case by simp
next
  case (Suc a)
  have "nmult (Suc a * b) P = nmult (a * b + b) P" by (simp add: add.commute)
  also have "\<dots> = nmult a (nmult b P) + nmult b P" by (simp add: nmult_add Suc)
  finally show ?case by simp
qed

lemma nmult_sum:
  "nmult a (\<Sum>i\<in>I. f i) = (\<Sum>i\<in>I. nmult a (f i :: 'pt::ab_group_add))"
  by (induction I rule: infinite_finite_induct) (simp_all add: nmult_zero_point nmult_plus)

lemma nmult_int: "nmult k (Q :: int) = int k * Q"
  by (induction k) (simp_all add: algebra_simps)

lemma foldl_plus_sum_list: "foldl (+) a xs = a + sum_list (xs :: 'pt::ab_group_add list)"
  by (induction xs arbitrary: a) (simp_all add: add.assoc)

lemma combination_nth:
  assumes "length v = length Plist"
  shows "combination Plist v = (\<Sum>i<length Plist. nmult (v ! i) (Plist ! i))"
proof -
  have "combination Plist v = sum_list (map (\<lambda>(vi, Pi). nmult vi Pi) (zip v Plist))"
    by (simp add: combination_def foldl_plus_sum_list)
  also have "\<dots> = (\<Sum>i = 0..<length Plist. map (\<lambda>(vi, Pi). nmult vi Pi) (zip v Plist) ! i)"
    using assms by (simp add: sum_list_sum_nth)
  also have "\<dots> = (\<Sum>i = 0..<length Plist. nmult (v ! i) (Plist ! i))"
    using assms by (intro sum.cong) simp_all
  finally show ?thesis by (simp add: atLeast0LessThan)
qed

lemma combination_congruent:
  fixes Plist :: "'pt::ab_group_add list"
  assumes lw: "length w = length Plist" and la: "length a = length Plist"
    and cong: "\<forall>i<length Plist. w ! i = (m * a ! i) mod p"
    and div: "combination Plist a = nmult p Q"
  shows "\<exists>Q'. nmult p Q' = combination Plist w"
proof -
  let ?n = "length Plist"
  let ?s = "\<lambda>i. (m * a ! i) div p"
  let ?D = "\<Sum>i<?n. nmult (?s i) (Plist ! i)"
  have split: "nmult (m * a ! i) (Plist ! i)
      = nmult (w ! i) (Plist ! i) + nmult p (nmult (?s i) (Plist ! i))" if "i < ?n" for i
  proof -
    have "m * a ! i = w ! i + p * ?s i"
      using cong that by simp
    then show ?thesis
      by (metis nmult_add nmult_mult)
  qed
  have "nmult m (combination Plist a) = (\<Sum>i<?n. nmult (m * a ! i) (Plist ! i))"
    by (simp add: combination_nth [OF la] nmult_sum nmult_mult)
  also have "\<dots> = (\<Sum>i<?n. nmult (w ! i) (Plist ! i) + nmult p (nmult (?s i) (Plist ! i)))"
    using split by (intro sum.cong) simp_all
  also have "\<dots> = combination Plist w + nmult p ?D"
    by (simp add: combination_nth [OF lw] sum.distrib nmult_sum)
  finally have "combination Plist w = nmult m (nmult p Q) - nmult p ?D"
    using div by (simp add: algebra_simps)
  also have "nmult m (nmult p Q) = nmult p (nmult m Q)"
    by (metis mult.commute nmult_mult)
  finally have "combination Plist w = nmult p (nmult m Q - ?D)"
    by (simp add: nmult_diff)
  then show ?thesis by metis
qed


subsection \<open>Normalising a coefficient vector modulo a prime\<close>

lemma is_prime_ge_2: "is_prime p \<Longrightarrow> 2 \<le> p"
  by (simp add: is_prime_def)

lemma is_prime_divisors:
  assumes "is_prime p" "d dvd p"
  shows "d = 1 \<or> d = p"
proof (rule ccontr)
  assume no: "\<not> (d = 1 \<or> d = p)"
  have p: "2 \<le> p" using assms(1) by (rule is_prime_ge_2)
  have "d \<noteq> 0" using assms(2) p by (metis dvd_0_left_iff not_numeral_le_zero)
  moreover have "d \<le> p" using assms(2) p by (simp add: dvd_imp_le)
  ultimately have "d \<in> set [2..<p]" using no by auto
  with assms(1) have "\<not> d dvd p"
    by (simp add: is_prime_def list_all_iff)
  with assms(2) show False by simp
qed

lemma inverse_mod_prime:
  assumes "is_prime p" "x mod p \<noteq> 0"
  shows "\<exists>m. (m * x) mod p = 1"
proof -
  have p: "2 \<le> p" using assms(1) by (rule is_prime_ge_2)
  have x: "x \<noteq> 0" using assms(2) by (metis mod_0)
  have "gcd x p dvd p" by simp
  then have "gcd x p = 1 \<or> gcd x p = p" using assms(1) is_prime_divisors by blast
  moreover have "gcd x p \<noteq> p"
  proof
    assume "gcd x p = p"
    then have "p dvd x" by (metis gcd_dvd1)
    with assms(2) show False by simp
  qed
  ultimately have g: "gcd x p = 1" by simp
  from bezout_nat [OF x, of p] g obtain m y where "x * m = p * y + 1" by auto
  then have "(m * x) mod p = (p * y + 1) mod p" by (simp add: mult.commute)
  also have "\<dots> = 1 mod p" by (metis add.commute mod_mult_self2)
  also have "\<dots> = 1" using p by simp
  finally show ?thesis by blast
qed

lemma normalise_vector:
  assumes prime: "is_prime p" and len: "length a = n"
    and nz: "list_ex (\<lambda>x. x mod p \<noteq> 0) a"
  shows "\<exists>m w. w \<in> set (ProjectiveSpace p n) \<and> (\<forall>i<n. w ! i = (m * a ! i) mod p)"
proof -
  have p: "2 \<le> p" using prime by (rule is_prime_ge_2)
  from nz len obtain i where i: "i < n" "a ! i mod p \<noteq> 0"
    by (auto simp: list_ex_iff in_set_conv_nth)
  define i0 where "i0 = (GREATEST i. i < n \<and> a ! i mod p \<noteq> 0)"
  have "i0 < n \<and> a ! i0 mod p \<noteq> 0"
    unfolding i0_def using i
    by (intro GreatestI_nat [where P = "\<lambda>i. i < n \<and> a ! i mod p \<noteq> 0" and b = n]) auto
  then have i0: "i0 < n" "a ! i0 mod p \<noteq> 0" by simp_all
  have above: "a ! j mod p = 0" if "j < n" "i0 < j" for j
  proof (rule ccontr)
    assume "a ! j mod p \<noteq> 0"
    with that have "j \<le> i0"
      unfolding i0_def
      by (intro Greatest_le_nat [where P = "\<lambda>i. i < n \<and> a ! i mod p \<noteq> 0" and b = n]) auto
    with that show False by simp
  qed
  from inverse_mod_prime [OF prime i0(2)] obtain m where m: "(m * a ! i0) mod p = 1" by blast
  let ?w = "map (\<lambda>x. (m * x) mod p) a"
  have "length ?w = n" using len by simp
  moreover have "set ?w \<subseteq> {..<p}" using p by auto
  moreover have "?w ! i0 = 1" using i0 len m by simp
  moreover have "?w ! j = 0" if "j < n" "i0 < j" for j
  proof -
    have "(m * a ! j) mod p = (m * (a ! j mod p)) mod p" by (simp add: mod_mult_right_eq)
    then show ?thesis using above [OF that] that len by simp
  qed
  ultimately have "?w \<in> set (ProjectiveSpace p n)"
    using i0(1) unfolding ProjectiveSpace_normalised [OF p] by blast
  moreover have "\<forall>i<n. ?w ! i = (m * a ! i) mod p" using len by simp
  ultimately show ?thesis by blast
qed

text \<open>
  In a \<open>p\<close>-saturated list no combination whose coefficients are not all divisible by
  \<open>p\<close> is \<open>p\<close> times a point.
\<close>

lemma saturated_no_combination:
  fixes Plist :: "'pt::ab_group_add list"
  assumes prime: "is_prime p" and sat: "p_saturated Plist p"
    and len: "length a = length Plist" and nz: "list_ex (\<lambda>x. x mod p \<noteq> 0) a"
  shows "nmult p Q \<noteq> combination Plist a"
proof
  assume d: "nmult p Q = combination Plist a"
  from normalise_vector [OF prime len nz] obtain m w
    where w: "w \<in> set (ProjectiveSpace p (length Plist))"
      and c: "\<forall>i<length Plist. w ! i = (m * a ! i) mod p"
    by blast
  have lw: "length w = length Plist" using w by (rule ProjectiveSpace_length)
  from combination_congruent [OF lw len c d [symmetric]]
  obtain Q' where "nmult p Q' = combination Plist w" by blast
  with sat w show False by (auto simp: p_saturated_def)
qed

subsection \<open>Combinations of the kernel points\<close>

lemma combination_zero:
  fixes Plist :: "'pt::ab_group_add list"
  shows "combination Plist (map (\<lambda>i. 0) [0..<length Plist]) = 0"
  by (simp add: combination_nth)

lemma combination_of_combinations:
  fixes Plist :: "'pt::ab_group_add list"
  assumes "list_all (\<lambda>v. length v = length Plist) K"
  shows "combination (map (combination Plist) K) c
     = combination Plist (mat_comb c K (length Plist))"
  using assms
proof (induction K arbitrary: c)
  case Nil
  then show ?case
    using combination_zero [of Plist] by (simp add: mat_comb_def combination_def)
next
  case (Cons v K)
  show ?case
  proof (cases c)
    case Nil
    then show ?thesis
      using combination_zero [of Plist] by (simp add: mat_comb_def combination_def)
  next
    case (Cons x c')
    let ?n = "length Plist"
    have lv: "length v = ?n" and K: "list_all (\<lambda>v. length v = ?n) K"
      using Cons.prems by simp_all
    have lm: "length (mat_comb c' K ?n) = ?n" "length (mat_comb c (v # K) ?n) = ?n"
      by (simp_all add: mat_comb_def)
    have entry: "mat_comb c (v # K) ?n ! i = x * v ! i + mat_comb c' K ?n ! i" if "i < ?n" for i
      using that Cons by (simp add: mat_comb_def)
    have "combination (map (combination Plist) (v # K)) c
        = nmult x (combination Plist v) + combination (map (combination Plist) K) c'"
      using Cons by (simp add: combination_def foldl_plus_sum_list)
    also have "\<dots> = nmult x (combination Plist v) + combination Plist (mat_comb c' K ?n)"
      using Cons.IH [OF K] by simp
    also have "\<dots> = (\<Sum>i<?n. nmult (x * v ! i) (Plist ! i) + nmult (mat_comb c' K ?n ! i) (Plist ! i))"
      by (simp add: combination_nth lv lm nmult_sum nmult_mult sum.distrib)
    also have "\<dots> = (\<Sum>i<?n. nmult (mat_comb c (v # K) ?n ! i) (Plist ! i))"
      using entry by (intro sum.cong) (simp_all add: nmult_add)
    also have "\<dots> = combination Plist (mat_comb c (v # K) ?n)"
      by (simp add: combination_nth lm)
    finally show ?thesis .
  qed
qed


subsection \<open>A saturated list passes the exhaustive search\<close>

lemma kernel_points_saturated:
  fixes Plist :: "'pt::ab_group_add list"
  assumes prime: "is_prime p" and sat: "p_saturated Plist p"
    and len: "list_all (\<lambda>v. length v = length Plist) K"
    and indep: "\<forall>c. length c = length K \<and> list_ex (\<lambda>x. x mod p \<noteq> 0) c
                  \<longrightarrow> list_ex (\<lambda>y. y mod p \<noteq> 0) (mat_comb c K (length Plist))"
  shows "p_saturated (map (combination Plist) K) p"
  unfolding p_saturated_def
proof (intro ballI allI)
  fix w Q
  assume w: "w \<in> set (ProjectiveSpace p (length (map (combination Plist) K)))"
  have p: "2 \<le> p" using prime by (rule is_prime_ge_2)
  have lw: "length w = length K" using ProjectiveSpace_length [OF w] by simp
  have "1 \<in> set w" using w by (rule ProjectiveSpace_has_one)
  moreover have "(1::nat) mod p \<noteq> 0" using p by simp
  ultimately have "list_ex (\<lambda>x. x mod p \<noteq> 0) w"
    unfolding list_ex_iff by blast
  with indep lw have nz: "list_ex (\<lambda>y. y mod p \<noteq> 0) (mat_comb w K (length Plist))"
    by blast
  have "length (mat_comb w K (length Plist)) = length Plist"
    by (simp add: mat_comb_def)
  from saturated_no_combination [OF prime sat this nz, of Q]
  show "nmult p Q \<noteq> combination (map (combination Plist) K) w"
    by (simp add: combination_of_combinations [OF len])
qed

lemma saturated_exhaustive_verdict:
  fixes S :: "('pt::ab_group_add, 'r, 'g, 'f) services"
  assumes p: "is_prime p" and sat: "p_saturated R p" and contract: "division_contract S p"
    and valid: "cache_valid R (dict_at h d)"
  shows "fst (p_saturation_False S R p d h) = Inr (Saturated d)"
proof -
  have none: "division_points S (combination R w) p = []"
    if "w \<in> set (ProjectiveSpace p (length R))" for w
  proof -
    from sat that have "{Q. nmult p Q = combination R w} = {}"
      by (auto simp: p_saturated_def)
    with contract have "set (division_points S (combination R w) p) = {}"
      by (simp add: division_contract_def)
    then show ?thesis by simp
  qed
  consider "length R = 0" | "length R = 1" "p = 2" | "R \<noteq> []" "\<not> (length R = 1 \<and> p = 2)"
    by auto
  then show ?thesis
  proof cases
    case 1
    then show ?thesis by (simp add: p_saturation_False_def)
  next
    case 2
    then obtain P where R: "R = [P]" by (cases R) auto
    have "[1] \<in> set (ProjectiveSpace p (length R))"
      by (simp add: R ProjectiveSpace_one)
    from none [OF this] have "division_points S P 2 = []"
      by (simp add: R combination_def 2(2))
    then show ?thesis
      by (simp add: p_saturation_False_def R 2(2) single_point_2_def)
  next
    case 3
    have "List.find (\<lambda>w. division_points S (combination R w) p \<noteq> [])
            (ProjectiveSpace p (length R)) = None"
      using none by (simp add: find_None_iff)
    with exhaustive_search_verdict [OF valid p 3(1), of S] 3 show ?thesis
      by (auto simp: p_saturation_False_def)
  qed
qed

lemma saturated_kernel_check:
  fixes S :: "('pt::ab_group_add, 'r, 'g, 'f) services"
  assumes setting: "sieve_setting S Plist p"
    and rows: "list_all (\<lambda>r. length r = length Plist) A'"
  shows "fst (kernel_check S Plist p lc A' h) = Inr (Saturated lc)"
proof -
  let ?K = "right_kernel_basis S p (length Plist) A'"
  let ?R = "map (combination Plist) ?K"
  from setting have prime: "is_prime p" and sat: "p_saturated Plist p"
    and contract: "division_contract S p" and ker: "kernel_ok S p (length Plist)"
    by (simp_all add: sieve_setting_def)
  from ker rows have len: "list_all (\<lambda>v. length v = length Plist) ?K"
    and indep: "\<forall>c. length c = length ?K \<and> list_ex (\<lambda>x. x mod p \<noteq> 0) c
                  \<longrightarrow> list_ex (\<lambda>y. y mod p \<noteq> 0) (mat_comb c ?K (length Plist))"
    by (simp_all add: kernel_ok_def)
  have satR: "p_saturated ?R p"
    using prime sat len indep by (rule kernel_points_saturated)
  have valid: "cache_valid ?R (dict_at (snd (new_dict h)) (fresh h))"
    by (simp add: cache_valid_def new_dict_def)
  obtain r h' where sub: "p_saturation_False S ?R p (fresh h) (snd (new_dict h)) = (r, h')"
    by (cases "p_saturation_False S ?R p (fresh h) (snd (new_dict h))")
  from saturated_exhaustive_verdict [OF prime satR contract valid] sub
  have "r = Inr (Saturated (fresh h))" by simp
  with kernel_check_result [OF sub, of lc] show ?thesis by simp
qed


subsection \<open>The steps of the sieve on a saturated list\<close>

lemma those_length: "those xs = Some v \<Longrightarrow> length v = length xs"
  by (induction xs arbitrary: v) (auto split: option.splits)

lemma dlogs_cases:
  "(dlogs f xs = Inl e \<longrightarrow> e = ValueError) \<and> (dlogs f xs = Inr v \<longrightarrow> length v = length xs)"
  using those_length [of "map f xs"] by (auto simp: dlogs_def split: option.splits)

lemma py_min_error: "py_min xs = Inl e \<Longrightarrow> e = ValueError"
  by (cases xs) simp_all

lemma py_max_error: "py_max xs = Inl e \<Longrightarrow> e = ValueError"
  by (cases xs) simp_all

lemma p_projections_cases:
  "(p_projections G Plist p debug = Inl e \<longrightarrow> e = AssertionError \<or> e = ValueError)
   \<and> (p_projections G Plist p debug = Inr vecs
        \<longrightarrow> list_all (\<lambda>v. length v = length Plist) vecs)"
proof -
  let ?m = "prime_to_m_part (group_order G) p"
  let ?pts = "map (scalar G ?m) Plist"
  have dl: "(dlogs f ?pts = Inl e' \<longrightarrow> e' = ValueError)
      \<and> (dlogs f ?pts = Inr v \<longrightarrow> length v = length Plist)" for f e' v
    using dlogs_cases [of f ?pts e' v] by simp
  show ?thesis
    unfolding p_projections_def Let_def vector_Fp_def
    using dl py_min_error py_max_error
    by (auto split: sum.splits list.splits if_splits)
qed

lemma retry_defined:
  assumes "p_projections G projPlist p False \<noteq> Inl AssertionError"
  shows "\<exists>vecs. fst (projections_with_retry G projPlist p) = Inr vecs
               \<and> list_all (\<lambda>v. length v = length projPlist) vecs"
proof (cases "p_projections G projPlist p False")
  case (Inl e)
  with assms p_projections_cases [of G projPlist p False e] have "e = ValueError" by auto
  with Inl show ?thesis
    by (simp add: projections_with_retry_def p_projections_debug)
next
  case (Inr vecs)
  with p_projections_cases [of G projPlist p False _ vecs] show ?thesis
    by (simp add: projections_with_retry_def)
qed


lemma saturated_sieve_body:
  fixes S :: "('pt::ab_group_add, 'r, 'g, 'f) services"
  assumes setting: "sieve_setting S Plist p"
    and inv: "sieve_inv S p (length Plist) st"
  shows "(\<not> p dvd reduced_cardinality S q amodq
            \<longrightarrow> sieve_body S Plist p lc q amodq st h = (Inr (Continue st), h))
       \<and> (p dvd reduced_cardinality S q amodq
            \<longrightarrow> (\<exists>h'. sieve_body S Plist p lc q amodq st h = (Inr (Return (Saturated lc)), h'))
                \<or> (\<exists>st'. sieve_body S Plist p lc q amodq st h = (Inr (Continue st'), h)
                      \<and> sieve_inv S p (length Plist) st'
                      \<and> sieve_potential (length Plist) st' < sieve_potential (length Plist) st))"
proof (intro conjI impI)
  assume "\<not> p dvd reduced_cardinality S q amodq"
  then show "sieve_body S Plist p lc q amodq st h = (Inr (Continue st), h)"
    by (simp add: sieve_body_def)
next
  assume card: "p dvd reduced_cardinality S q amodq"
  let ?n = "length Plist"
  let ?G = "reduced_group S q amodq"
  let ?pts = "map (reduce_point S q amodq) Plist"
  from setting have rk: "rank_ok S p ?n" and pr: "projections_ok S Plist p"
    by (simp_all add: sieve_setting_def)
  from pr have "p_projections ?G ?pts p False \<noteq> Inl AssertionError"
    by (simp add: projections_ok_def)
  from retry_defined [OF this] obtain vecs
    where vecs: "fst (projections_with_retry ?G ?pts p) = Inr vecs"
      and lv: "list_all (\<lambda>v. length v = ?n) vecs"
    by auto
  let ?A = "A st @ vecs"
  let ?r = "rank_Fp S p ?A"
  from inv have rows: "list_all (\<lambda>r. length r = ?n) (A st)"
    and low: "rankA st \<le> rank_Fp S p (A st)" and cnt: "count st \<le> 9"
    by (simp_all add: sieve_inv_def)
  have rows': "list_all (\<lambda>r. length r = ?n) ?A" using rows lv by simp
  from rk rows' have mono: "rank_Fp S p (A st) \<le> ?r" and bound: "?r \<le> ?n"
    by (simp_all add: rank_ok_def)
  consider (full) "?r = ?n"
    | (same10) "?r \<noteq> ?n" "?r = rankA st" "count st + 1 = 10"
    | (same) "?r \<noteq> ?n" "?r = rankA st" "count st + 1 \<noteq> 10"
    | (up) "?r \<noteq> ?n" "?r \<noteq> rankA st"
    by blast
  then show "(\<exists>h'. sieve_body S Plist p lc q amodq st h = (Inr (Return (Saturated lc)), h'))
                \<or> (\<exists>st'. sieve_body S Plist p lc q amodq st h = (Inr (Continue st'), h)
                      \<and> sieve_inv S p ?n st'
                      \<and> sieve_potential ?n st' < sieve_potential ?n st)"
  proof cases
    case full
    then have "sieve_body S Plist p lc q amodq st h = (Inr (Return (Saturated lc)), h)"
      using card vecs by (simp add: sieve_body_def Let_def)
    then show ?thesis by blast
  next
    case same10
    obtain r h' where kc: "kernel_check S Plist p lc ?A h = (r, h')"
      by (cases "kernel_check S Plist p lc ?A h")
    with saturated_kernel_check [OF setting rows', of lc h] have "r = Inr (Saturated lc)"
      by simp
    with kc same10 card vecs
    have "sieve_body S Plist p lc q amodq st h = (Inr (Return (Saturated lc)), h')"
      by (simp add: sieve_body_def Let_def)
    then show ?thesis by blast
  next
    case same
    let ?st = "st\<lparr>A := ?A, count := count st + 1\<rparr>"
    have "sieve_body S Plist p lc q amodq st h = (Inr (Continue ?st), h)"
      using same card vecs by (simp add: sieve_body_def Let_def)
    moreover have "sieve_inv S p ?n ?st"
      using rows' same cnt by (simp add: sieve_inv_def)
    moreover have "sieve_potential ?n ?st < sieve_potential ?n st"
      using cnt by (simp add: sieve_potential_def)
    ultimately show ?thesis by blast
  next
    case up
    let ?st = "st\<lparr>A := ?A, rankA := ?r, count := 0\<rparr>"
    have "sieve_body S Plist p lc q amodq st h = (Inr (Continue ?st), h)"
      using up card vecs by (simp add: sieve_body_def Let_def)
    moreover have "sieve_inv S p ?n ?st"
      using rows' by (simp add: sieve_inv_def)
    moreover have "sieve_potential ?n ?st < sieve_potential ?n st"
    proof -
      have "rankA st < ?r" using low mono up(2) by simp
      moreover have "?r < ?n" using bound up(1) by simp
      ultimately have "10 * (?n - ?r) + 10 \<le> 10 * (?n - rankA st)" by simp
      then show ?thesis using cnt by (simp add: sieve_potential_def)
    qed
    ultimately show ?thesis by blast
  qed
qed

lemma saturated_sieve_roots:
  fixes S :: "('pt::ab_group_add, 'r, 'g, 'f) services"
  assumes setting: "sieve_setting S Plist p"
  shows "sieve_inv S p (length Plist) st \<Longrightarrow>
    (\<exists>h'. sieve_roots S Plist p lc q roots st h = (Inr (Return (Saturated lc)), h'))
    \<or> (\<exists>st'. sieve_roots S Plist p lc q roots st h = (Inr (Continue st'), h)
          \<and> sieve_inv S p (length Plist) st'
          \<and> (if list_ex (\<lambda>a. p dvd reduced_cardinality S q a) roots
              then sieve_potential (length Plist) st' < sieve_potential (length Plist) st
              else st' = st))"
proof (induction roots arbitrary: st)
  case Nil
  then show ?case by simp
next
  case (Cons a roots)
  note body = saturated_sieve_body [OF setting Cons.prems, of q a lc h]
  show ?case
  proof (cases "p dvd reduced_cardinality S q a")
    case False
    with body have b: "sieve_body S Plist p lc q a st h = (Inr (Continue st), h)" by simp
    from Cons.IH [OF Cons.prems] False b show ?thesis by simp
  next
    case True
    with body consider
      (ret) h' where "sieve_body S Plist p lc q a st h = (Inr (Return (Saturated lc)), h')"
      | (cont) st' where "sieve_body S Plist p lc q a st h = (Inr (Continue st'), h)"
          "sieve_inv S p (length Plist) st'"
          "sieve_potential (length Plist) st' < sieve_potential (length Plist) st"
      by blast
    then show ?thesis
    proof cases
      case ret
      then show ?thesis by simp
    next
      case cont
      from Cons.IH [OF cont(2)] show ?thesis
      proof
        assume "\<exists>h'. sieve_roots S Plist p lc q roots st' h = (Inr (Return (Saturated lc)), h')"
        with cont(1) show ?thesis by simp
      next
        assume "\<exists>st''. sieve_roots S Plist p lc q roots st' h = (Inr (Continue st''), h)
          \<and> sieve_inv S p (length Plist) st''
          \<and> (if list_ex (\<lambda>a. p dvd reduced_cardinality S q a) roots
              then sieve_potential (length Plist) st'' < sieve_potential (length Plist) st'
              else st'' = st')"
        then obtain st'' where s: "sieve_roots S Plist p lc q roots st' h = (Inr (Continue st''), h)"
          "sieve_inv S p (length Plist) st''"
          "sieve_potential (length Plist) st'' \<le> sieve_potential (length Plist) st'"
          by (auto split: if_splits)
        with cont True show ?thesis by auto
      qed
    qed
  qed
qed


lemma sieve_potential_positive: "sieve_inv S p n st \<Longrightarrow> 0 < sieve_potential n st"
  by (simp add: sieve_inv_def sieve_potential_def)

lemma saturated_sieve_primes:
  fixes S :: "('pt::ab_group_add, 'r, 'g, 'f) services"
  assumes setting: "sieve_setting S Plist p"
  shows "sieve_inv S p (length Plist) st
    \<Longrightarrow> sieve_potential (length Plist) st \<le> length (filter (effective S Plist p) [q..<q + fuel])
    \<Longrightarrow> \<exists>h'. sieve_primes S Plist p lc fuel q st h = Some (Inr (Saturated lc), h')"
proof (induction fuel arbitrary: q st)
  case 0
  with sieve_potential_positive [OF "0.prems"(1)] show ?case by simp
next
  case (Suc fuel)
  let ?n = "length Plist"
  define T where "T = [Suc q..<Suc q + fuel]"
  have upt: "[q..<q + Suc fuel] = q # T"
    by (simp add: T_def upt_conv_Cons)
  have total: "sieve_potential ?n st \<le> length (filter (effective S Plist p) (q # T))"
    using Suc.prems(2) by (simp only: upt)
  have step: "\<exists>h'. sieve_primes S Plist p lc fuel (Suc q) st' h = Some (Inr (Saturated lc), h')"
    if "sieve_inv S p ?n st'" "sieve_potential ?n st' \<le> length (filter (effective S Plist p) T)"
    for st'
    using Suc.IH [of st' "Suc q"] that unfolding T_def by blast
  show ?case
  proof (cases "is_prime q \<and> \<not> skipped S Plist q")
    case False
    then have "\<not> effective S Plist p q" by (auto simp: effective_def)
    with total have "sieve_potential ?n st \<le> length (filter (effective S Plist p) T)" by simp
    from step [OF Suc.prems(1) this] False show ?thesis by auto
  next
    case True
    let ?e = "list_ex (\<lambda>a. p dvd reduced_cardinality S q a) (roots_mod S q)"
    have eff: "effective S Plist p q \<longleftrightarrow> ?e" using True by (simp add: effective_def)
    from saturated_sieve_roots [OF setting Suc.prems(1), of lc q "roots_mod S q" h]
    consider
      (ret) h' where "sieve_roots S Plist p lc q (roots_mod S q) st h
                        = (Inr (Return (Saturated lc)), h')"
      | (cont) st' where "sieve_roots S Plist p lc q (roots_mod S q) st h = (Inr (Continue st'), h)"
          "sieve_inv S p ?n st'"
          "if ?e then sieve_potential ?n st' < sieve_potential ?n st else st' = st"
      by blast
    then show ?thesis
    proof cases
      case ret
      with True show ?thesis by simp
    next
      case cont
      have "sieve_potential ?n st' \<le> length (filter (effective S Plist p) T)"
      proof (cases ?e)
        case True
        with cont(3) eff total show ?thesis by simp
      next
        case False
        with cont(3) eff total show ?thesis by simp
      qed
      from step [OF cont(2) this] cont(1) True show ?thesis by simp
    qed
  qed
qed

lemma saturated_special_cases:
  fixes S :: "('pt::ab_group_add, 'r, 'g, 'f) services"
  assumes sat: "p_saturated Plist p" and contract: "division_contract S p"
    and special: "length Plist = 0 \<or> (length Plist = 1 \<and> p = 2)"
  shows "p_saturation S fuel Plist p sieve lc h = Some (Inr (Saturated lc), h)"
proof (cases "length Plist = 0")
  case True
  then show ?thesis by (simp add: p_saturation_def)
next
  case False
  with special obtain P where P: "Plist = [P]" and p: "p = 2"
    by (cases Plist) auto
  have "[1] \<in> set (ProjectiveSpace p (length Plist))"
    by (simp add: P ProjectiveSpace_one)
  with sat have "{Q. nmult p Q = combination Plist [1]} = {}"
    by (auto simp: p_saturated_def)
  with contract have "set (division_points S (combination Plist [1]) p) = {}"
    by (simp add: division_contract_def)
  then have "division_points S P 2 = []"
    by (simp add: P p combination_def)
  then show ?thesis
    by (simp add: p_saturation_def P p single_point_2_def)
qed

text \<open>
  Claim C9. Let \<open>p\<close> be prime, let the division-point operation list exactly the
  points \<open>Q\<close> with \<open>p Q = X\<close>, and let the list be \<open>p\<close>-saturated: no combination of
  the points with a coefficient tuple of projective space is \<open>p\<close> times a point.
  \<^item> With \<open>sieve=False\<close> and an empty dict, \<open>p_saturation\<close> returns
    \<open>(True, lin_combs)\<close>.
  \<^item> With \<open>sieve=True\<close> it returns \<open>(True, lin_combs)\<close> as well, whatever the dict
    holds, when the rank and the kernel basis of the linear algebra are what their
    names say, the assertion of \<open>p_projections\<close> holds at every reduction, and the walk
    over the primes is long enough to meet \<open>10 (n + 1)\<close> primes that are not skipped and
    have a reduction with \<open>p\<close>-torsion: each of them either ends the run or brings it
    closer to its end, so the run ends within the walk.
\<close>

theorem saturated_list_reported_saturated:
  fixes S :: "('pt::ab_group_add, 'r, 'g, 'f) services"
  assumes prime: "is_prime p" and sat: "p_saturated Plist p"
    and contract: "division_contract S p"
  shows "(dict_at h lin_combs = Map.empty
            \<longrightarrow> map_option fst (p_saturation S fuel Plist p False lin_combs h)
                  = Some (Inr (Saturated lin_combs)))
       \<and> (rank_ok S p (length Plist) \<and> kernel_ok S p (length Plist)
           \<and> projections_ok S Plist p
           \<and> 10 * (length Plist + 1)
               \<le> length (filter (effective S Plist p) [2..<2 + fuel])
            \<longrightarrow> map_option fst (p_saturation S fuel Plist p True lin_combs h)
                  = Some (Inr (Saturated lin_combs)))"
proof (intro conjI impI)
  assume "dict_at h lin_combs = Map.empty"
  then have "cache_valid Plist (dict_at h lin_combs)"
    by (simp add: cache_valid_def)
  from saturated_exhaustive_verdict [OF prime sat contract this]
  show "map_option fst (p_saturation S fuel Plist p False lin_combs h)
          = Some (Inr (Saturated lin_combs))"
    by (simp add: p_saturation_False_eq)
next
  assume hyps: "rank_ok S p (length Plist) \<and> kernel_ok S p (length Plist)
           \<and> projections_ok S Plist p
           \<and> 10 * (length Plist + 1)
               \<le> length (filter (effective S Plist p) [2..<2 + fuel])"
  show "map_option fst (p_saturation S fuel Plist p True lin_combs h)
          = Some (Inr (Saturated lin_combs))"
  proof (cases "length Plist = 0 \<or> (length Plist = 1 \<and> p = 2)")
    case True
    from saturated_special_cases [OF sat contract True] show ?thesis by simp
  next
    case False
    let ?st = "\<lparr>A = [], rankA = 0, count = 0\<rparr>"
    have setting: "sieve_setting S Plist p"
      using prime sat contract hyps by (simp add: sieve_setting_def)
    have inv: "sieve_inv S p (length Plist) ?st"
      by (simp add: sieve_inv_def)
    have pot: "sieve_potential (length Plist) ?st
        \<le> length (filter (effective S Plist p) [2..<2 + fuel])"
      using hyps by (simp add: sieve_potential_def)
    from saturated_sieve_primes [OF setting inv pot, of lin_combs h]
    obtain h' where "sieve_primes S Plist p lin_combs fuel 2 ?st h
        = Some (Inr (Saturated lin_combs), h')"
      by blast
    with False show ?thesis by (auto simp: p_saturation_def)
  qed
qed

lemma int_saturated_1_3: "p_saturated [1 :: int] 3"
proof -
  have "int 3 * Q \<noteq> 1" for Q :: int by presburger
  then show ?thesis
    by (simp add: p_saturated_def ProjectiveSpace_one combination_def nmult_int)
qed

lemma reduced_division_contract: "p \<noteq> 0 \<Longrightarrow> division_contract (reduced_services G red) p"
proof -
  assume "p \<noteq> 0"
  then have "set (if p \<noteq> 0 \<and> int p dvd X then [X div int p] else []) = {Q. int p * Q = X}" for X
    by auto
  then show ?thesis
    by (simp add: division_contract_def reduced_services_def nmult_int)
qed

lemma int_division_contract: "p \<noteq> 0 \<Longrightarrow> division_contract int_services p"
proof -
  assume "p \<noteq> 0"
  then have "set (if p \<noteq> 0 \<and> int p dvd X then [X div int p] else []) = {Q. int p * Q = X}" for X
    by auto
  then show ?thesis
    by (simp add: division_contract_def nmult_int)
qed

lemma column_rank_ok: "rank_ok (reduced_services G red) p 1"
  by (auto simp: rank_ok_def reduced_services_def column_rank_def)

lemma column_kernel_ok: "kernel_ok (reduced_services G red) p 1"
proof -
  have "list_ex (\<lambda>y. y mod p \<noteq> 0) (mat_comb c [[1]] 1)"
    if "length c = length [[1::nat]]" "list_ex (\<lambda>x. x mod p \<noteq> 0) c" for c
  proof -
    from that(1) obtain x where "c = [x]" by (cases c) auto
    with that(2) show ?thesis by (simp add: mat_comb_def)
  qed
  then show ?thesis
    by (auto simp: kernel_ok_def reduced_services_def column_kernel_def)
qed

lemma cyclic9_projection_1: "p_projections cyclic9 [Suc 0] 3 False = Inr [[1]]"
  by code_simp

lemma cyclic9_projection_0: "p_projections cyclic9 [0] 3 False = Inr [[0]]"
  by code_simp

lemma twenty_effective_primes:
  "10 * (length [1 :: int] + 1)
     \<le> length (filter (effective (reduced_services cyclic9 red) [1] 3) [2..<2 + 70])"
proof -
  have e: "effective (reduced_services cyclic9 red) [1] 3 q = is_prime q" for q
    using is_prime_ge_2 [of q]
    by (auto simp: effective_def skipped_def reduced_services_def cyclic9_def)
  have "length (filter is_prime [2..<2 + 70]) = 20" by code_simp
  then show ?thesis by (simp add: e [abs_def])
qed

text \<open>
  Over the integers with \<open>p = 3\<close>, the list \<open>[1]\<close> is saturated. The exhaustive
  search reports it saturated. So does the sieve, with the cyclic group of order nine as
  the reduction at every prime: when the point reduces to the generator the rank is full
  at the first prime, and when it reduces to zero the rank stays \<open>0\<close> for ten primes
  and the kernel check finds nothing divisible.
\<close>

theorem saturated_list_reported_saturated_witness:
  "map_option fst (p_saturation int_services 0 [1] 3 False p_saturation_default module_heap)
     = Some (Inr (Saturated p_saturation_default))
   \<and> map_option fst (p_saturation (reduced_services cyclic9 (\<lambda>k. nat (k mod 9))) 70 [1] 3 True
        p_saturation_default module_heap) = Some (Inr (Saturated p_saturation_default))
   \<and> map_option fst (p_saturation (reduced_services cyclic9 (\<lambda>k. 0)) 70 [1] 3 True
        p_saturation_default module_heap) = Some (Inr (Saturated p_saturation_default))"
proof -
  let ?S1 = "reduced_services cyclic9 (\<lambda>k. nat (k mod 9))"
  let ?S0 = "reduced_services cyclic9 (\<lambda>k::int. 0::nat)"
  have empty: "dict_at (module_heap :: int heap) p_saturation_default = Map.empty"
    by (simp add: module_heap_def)
  have a: "map_option fst (p_saturation int_services 0 [1] 3 False p_saturation_default module_heap)
     = Some (Inr (Saturated p_saturation_default))"
    using saturated_list_reported_saturated
      [OF is_prime_3 int_saturated_1_3 int_division_contract [of 3, simplified],
        where h = module_heap and lin_combs = p_saturation_default and fuel = 0]
      empty
    by blast
  have ok1: "projections_ok ?S1 [1] 3"
    by (simp add: projections_ok_def reduced_services_def cyclic9_projection_1)
  have ok0: "projections_ok ?S0 [1] 3"
    by (simp add: projections_ok_def reduced_services_def cyclic9_projection_0)
  have len: "length [1 :: int] = 1" by simp
  have b: "map_option fst (p_saturation ?S1 70 [1] 3 True p_saturation_default module_heap)
     = Some (Inr (Saturated p_saturation_default))"
    using saturated_list_reported_saturated
      [OF is_prime_3 int_saturated_1_3
          reduced_division_contract [of 3 cyclic9 "\<lambda>k. nat (k mod 9)", simplified],
        where h = module_heap and lin_combs = p_saturation_default and fuel = 70]
      column_rank_ok [of cyclic9 "\<lambda>k. nat (k mod 9)" 3]
      column_kernel_ok [of cyclic9 "\<lambda>k. nat (k mod 9)" 3]
      ok1 twenty_effective_primes [of "\<lambda>k. nat (k mod 9)"]
    unfolding len by blast
  have c: "map_option fst (p_saturation ?S0 70 [1] 3 True p_saturation_default module_heap)
     = Some (Inr (Saturated p_saturation_default))"
    using saturated_list_reported_saturated
      [OF is_prime_3 int_saturated_1_3
          reduced_division_contract [of 3 cyclic9 "\<lambda>k. 0", simplified],
        where h = module_heap and lin_combs = p_saturation_default and fuel = 70]
      column_rank_ok [of cyclic9 "\<lambda>k. 0" 3]
      column_kernel_ok [of cyclic9 "\<lambda>k. 0" 3]
      ok0 twenty_effective_primes [of "\<lambda>k. 0"]
    unfolding len by blast
  from a b c show ?thesis by simp
qed


subsection \<open>The caller's list when torsion generators are appended\<close>

lemma fold_torsion_fresh:
  "fold (torsion_step S p) Ts (Pl, nx, h) = (Pl', nx', h') \<Longrightarrow> nx' \<noteq> nx
   \<Longrightarrow> fresh h \<le> Pl' \<and> Pl' < fresh h'"
proof (induction Ts arbitrary: Pl nx h)
  case Nil
  then show ?case by simp
next
  case (Cons T Ts)
  show ?case
  proof (cases "p dvd torsion_order S T")
    case False
    with Cons.prems have "fold (torsion_step S p) Ts (Pl, nx, h) = (Pl', nx', h')"
      by (simp add: torsion_step_apply)
    from Cons.IH [OF this Cons.prems(2)] show ?thesis .
  next
    case True
    let ?h = "snd (new_list (list_at h Pl @ [T]) h)"
    from True Cons.prems
    have f: "fold (torsion_step S p) Ts (fresh h, nx + 1, ?h) = (Pl', nx', h')"
      by (simp add: torsion_step_apply)
    have fr: "fresh ?h = Suc (fresh h)" by (simp add: new_list_def)
    show ?thesis
    proof (cases "nx' = nx + 1")
      case True
      with fold_torsion_step [OF f] have "Pl' = fresh h" "h' = ?h" by simp_all
      with fr show ?thesis by simp
    next
      case False
      from Cons.IH [OF f False] fr show ?thesis by simp
    qed
  qed
qed

lemma saturation_loop_lists:
  "saturation_loop S pfuel p Plist lc fuel e res h = Some (r, h')
   \<Longrightarrow> (\<forall>l. l \<noteq> Plist \<longrightarrow> list_at h' l = list_at h l) \<and> fresh h \<le> fresh h'"
proof (induction S pfuel p Plist lc fuel e res h rule: saturation_loop.induct)
  case (1 S pfuel p Plist lin_combs fuel exponent d h)
  then show ?case by auto
next
  case (2 S pfuel p Plist lin_combs exponent i newP h)
  then show ?case by simp
next
  case (3 S pfuel p Plist lin_combs fuel exponent i newP h)
  show ?case
  proof (cases "replace_point Plist i newP exponent h")
    case (Inl err)
    with "3.prems" show ?thesis by simp
  next
    case (Inr x)
    then obtain e1 h1 where rp: "replace_point Plist i newP exponent h = Inr (e1, h1)"
      by (cases x) simp
    note f1 = replace_point_result [OF rp]
    from "3.prems" rp obtain r2 h2
      where ps: "p_saturation S pfuel (list_at h1 Plist) p True lin_combs h1 = Some (r2, h2)"
      by (auto split: option.splits)
    from p_saturation_sieve_frame [OF ps] have k: "heap_kept h1 h2" by simp
    have step: "(\<forall>l. l \<noteq> Plist \<longrightarrow> list_at h2 l = list_at h l) \<and> fresh h \<le> fresh h2"
      using k f1 by (simp add: heap_kept_def)
    show ?thesis
    proof (cases r2)
      case (Inl err)
      with "3.prems" rp ps step show ?thesis by simp
    next
      case (Inr res1)
      with "3.prems" rp ps
      have rest: "saturation_loop S pfuel p Plist lin_combs fuel e1 res1 h2 = Some (r, h')"
        by simp
      from "3.IH" [OF rp refl ps [unfolded Inr] refl refl rest] step show ?thesis
        by auto
    qed
  qed
qed

lemma saturate_lists:
  assumes "saturate S pfuel fuel p Plist lc h = Some (r, h')"
  shows "(\<forall>l. l \<noteq> Plist \<longrightarrow> list_at h' l = list_at h l) \<and> fresh h \<le> fresh h'"
proof -
  from assms obtain r1 h1
    where ps: "p_saturation S pfuel (list_at h Plist) p True lc h = Some (r1, h1)"
    by (auto simp: saturate_def split: option.splits)
  from p_saturation_sieve_frame [OF ps] have k: "heap_kept h h1" by simp
  show ?thesis
  proof (cases r1)
    case (Inl err)
    with assms ps k show ?thesis by (simp add: saturate_def heap_kept_def)
  next
    case (Inr res1)
    with assms ps have "saturation_loop S pfuel p Plist lc fuel 0 res1 h1 = Some (r, h')"
      by (simp add: saturate_def)
    from saturation_loop_lists [OF this] k show ?thesis
      by (simp add: heap_kept_def)
  qed
qed

text \<open>
  When a torsion generator of order divisible by \<open>p\<close> is appended, the working list
  is a new object, every replacement is written into that object, and the list returned
  is a third object: the list of the caller is as it was. This is the case that the
  comment at lines 490 to 494 is about. Without such a generator the working list is the
  caller's own object.
\<close>

lemma caller_list_kept_with_torsion:
  fixes S :: "('pt::ab_group_add, 'r, 'g, 'f) services"
  assumes run: "full_p_saturation S pfuel fuel Plist p lc h = Some (Inr (Plist', e), h')"
    and alloc: "Plist < fresh h" and ne: "list_at h Plist \<noteq> []"
    and torsion: "filter (\<lambda>T. p dvd torsion_order S T) (torsion_gens S) \<noteq> []"
  shows "list_at h' Plist = list_at h Plist \<and> Plist' \<noteq> Plist"
proof -
  obtain Plist1 extra lc1 h1 where a: "add_torsion S p Plist lc h = (Plist1, extra, lc1, h1)"
    by (cases "add_torsion S p Plist lc h") auto
  let ?n = "length (list_at h Plist)"
  obtain Pl' nx' h0 where f: "fold (torsion_step S p) (torsion_gens S) (Plist, ?n, h) = (Pl', nx', h0)"
    by (cases "fold (torsion_step S p) (torsion_gens S) (Plist, ?n, h)")
  from fold_torsion_step [OF f] torsion have nx: "nx' \<noteq> ?n" by simp
  from fold_torsion_fresh [OF f nx] have new: "fresh h \<le> Pl'" by simp
  from a f nx fold_torsion_step [OF f] have P1: "Plist1 = Pl'" and ex: "extra \<noteq> 0"
    by (auto simp: add_torsion_def Let_def new_dict_def split: if_splits)
  from add_torsion_result [OF a] alloc have l1: "list_at h1 Plist = list_at h Plist"
    and fr1: "fresh h \<le> fresh h1"
    using ex by auto
  from run a ne ex obtain res h2 where s: "saturate S pfuel fuel p Plist1 lc1 h1 = Some (Inr (e, res), h2)"
    and fin: "Plist' = fresh h2" "h' = snd (new_list (take ?n (list_at h2 Plist1)) h2)"
    by (auto simp: full_p_saturation_def Let_def new_list_def split: option.splits sum.splits)
  have "Plist \<noteq> Plist1" using P1 new alloc by simp
  with saturate_lists [OF s] have l2: "list_at h2 Plist = list_at h1 Plist"
    and fr2: "fresh h1 \<le> fresh h2" by simp_all
  have "Plist < fresh h2" using alloc fr1 fr2 by simp
  then show ?thesis using fin l1 l2 by (simp add: new_list_def)
qed

end
